theory Spec2Isabelle
  imports Main
begin

section \<open>Values and contexts\<close>

text \<open>
  The contexts of the program are Python dictionaries from strings to arbitrary
  values. The values that the scheduler core itself builds are \<open>None\<close>, strings and
  (nested) dictionaries; the outputs of the agents are opaque to it.
\<close>

datatype pyval = PNone | PStr string | PDict "(string \<times> pyval) list"

type_synonym pydict = "string \<rightharpoonup> pyval"

text \<open>\<open>d.get(key, default)\<close> of a Python dictionary.\<close>

definition dict_get :: "('k \<rightharpoonup> 'v) \<Rightarrow> 'k \<Rightarrow> 'v \<Rightarrow> 'v" where
  "dict_get d k dflt = (case d k of None \<Rightarrow> dflt | Some v \<Rightarrow> v)"

section \<open>services/context_manager.py\<close>

text \<open>
  \<open>context_versions\<close> is a \<open>defaultdict(int)\<close>: reading a missing key with
  \<open>[]\<close> stores and returns 0, reading it with \<open>.get\<close> stores nothing. A record
  of the history is (context name, update, version); the wall-clock timestamp of
  a record is left out, nothing reads it.
\<close>

record ContextManager =
  master_context :: pydict
  step_contexts :: "string \<rightharpoonup> pydict"
  context_versions :: "string \<rightharpoonup> int"
  context_history :: "(string \<times> pydict \<times> int) list"

definition ContextManager_init :: ContextManager where
  "ContextManager_init =
     \<lparr>master_context = Map.empty, step_contexts = Map.empty,
      context_versions = Map.empty, context_history = []\<rparr>"

definition log_context_update :: "string \<Rightarrow> pydict \<Rightarrow> ContextManager \<Rightarrow> ContextManager" where
  "log_context_update context_name upd cm =
     (let v = dict_get (context_versions cm) context_name 0 in
      cm\<lparr>context_versions := (context_versions cm)(context_name \<mapsto> v),
         context_history := context_history cm @ [(context_name, upd, v)]\<rparr>)"

definition initialize_master_context :: "pydict \<Rightarrow> ContextManager \<Rightarrow> ContextManager" where
  "initialize_master_context initial_data cm =
     log_context_update ''master_context'' initial_data (cm\<lparr>master_context := initial_data\<rparr>)"

definition get_master_context :: "ContextManager \<Rightarrow> pydict" where
  "get_master_context cm = master_context cm"

definition update_master_context :: "pydict \<Rightarrow> ContextManager \<Rightarrow> ContextManager" where
  "update_master_context new_data cm =
     log_context_update ''master_context'' new_data
       (cm\<lparr>master_context := master_context cm ++ new_data\<rparr>)"

text \<open>
  The context that \<open>initialize_step_context\<close> builds for an agent that has none:
  a fixed table keyed by the agent's name.
\<close>

definition base_step_context :: "ContextManager \<Rightarrow> string \<Rightarrow> pydict" where
  "base_step_context cm agent_id =
     (if agent_id = ''scope_agent'' then
        [''client_info'' \<mapsto> dict_get (master_context cm) ''client_info'' (PDict []),
         ''engagement_details'' \<mapsto> dict_get (master_context cm) ''engagement_details'' (PDict []),
         ''specific_requirements'' \<mapsto> dict_get (master_context cm) ''specific_requirements'' (PDict [])]
      else if agent_id = ''value_proposition_agent'' then
        [''client_info'' \<mapsto> dict_get (master_context cm) ''client_info'' (PDict []),
         ''engagement_details'' \<mapsto> dict_get (master_context cm) ''engagement_details'' (PDict []),
         ''proposal_needs'' \<mapsto> dict_get (master_context cm) ''proposal_needs'' (PDict [])]
      else if agent_id = ''quality_judge_agent'' then
        [''section_content'' \<mapsto> PNone, ''section_id'' \<mapsto> PNone]
      else if agent_id \<in> set [''approach_agent'', ''pricing_agent'', ''team_agent''] then
        [''client_info'' \<mapsto> dict_get (master_context cm) ''client_info'' (PDict []),
         ''engagement_details'' \<mapsto> dict_get (master_context cm) ''engagement_details'' (PDict []),
         ''scope_output'' \<mapsto>
            dict_get (dict_get (step_contexts cm) ''scope_agent'' Map.empty) ''output'' (PStr '''')]
      else if agent_id = ''timeline_agent'' then
        [''client_info'' \<mapsto> dict_get (master_context cm) ''client_info'' (PDict []),
         ''engagement_details'' \<mapsto> dict_get (master_context cm) ''engagement_details'' (PDict []),
         ''approach_output'' \<mapsto>
            dict_get (dict_get (step_contexts cm) ''approach_agent'' Map.empty) ''output'' (PStr '''')]
      else if agent_id = ''executive_summary_agent'' then
        [''client_info'' \<mapsto> dict_get (master_context cm) ''client_info'' (PDict []),
         ''engagement_details'' \<mapsto> dict_get (master_context cm) ''engagement_details'' (PDict []),
         ''value_proposition_output'' \<mapsto>
            dict_get (dict_get (step_contexts cm) ''value_proposition_agent'' Map.empty) ''output'' (PStr '''')]
      else Map.empty)"

definition initialize_step_context :: "string \<Rightarrow> ContextManager \<Rightarrow> ContextManager" where
  "initialize_step_context agent_id cm =
     (if step_contexts cm agent_id = None
      then cm\<lparr>step_contexts := (step_contexts cm)(agent_id \<mapsto> base_step_context cm agent_id)\<rparr>
      else cm)"

definition get_step_context :: "ContextManager \<Rightarrow> string \<Rightarrow> pydict" where
  "get_step_context cm agent_id = dict_get (step_contexts cm) agent_id Map.empty"

definition update_step_context :: "string \<Rightarrow> pydict \<Rightarrow> ContextManager \<Rightarrow> ContextManager" where
  "update_step_context agent_id new_data cm =
     (let old = dict_get (step_contexts cm) agent_id Map.empty;
          cm1 = cm\<lparr>step_contexts := (step_contexts cm)(agent_id \<mapsto> old ++ new_data)\<rparr>;
          cm2 = cm1\<lparr>context_versions :=
                  (context_versions cm1)(agent_id \<mapsto> dict_get (context_versions cm1) agent_id 0 + 1)\<rparr>
      in log_context_update agent_id new_data cm2)"

definition get_context_history :: "ContextManager \<Rightarrow> (string \<times> pydict \<times> int) list" where
  "get_context_history cm = context_history cm"

definition get_context_version :: "ContextManager \<Rightarrow> string \<Rightarrow> int" where
  "get_context_version cm agent_id = dict_get (context_versions cm) agent_id 0"

section \<open>services/dependency_graph.py\<close>

text \<open>
  \<open>dependencies\<close> is a dictionary from an agent to the list of the agents it
  depends on. Its order of insertion is what \<open>get_dependents\<close> and the cycle
  check iterate in, so it is an association list; \<open>add_dependency\<close> keeps the
  keys distinct, as a dictionary does.
\<close>

type_synonym DependencyGraph = "(string \<times> string list) list"

fun add_dependency :: "string \<Rightarrow> string \<Rightarrow> DependencyGraph \<Rightarrow> DependencyGraph" where
  "add_dependency agent depends_on [] = [(agent, [depends_on])]"
| "add_dependency agent depends_on ((k, ds) # g) =
     (if k = agent then (k, ds @ [depends_on]) # g
      else (k, ds) # add_dependency agent depends_on g)"

text \<open>\<open>self.dependencies.get(agent, [])\<close>\<close>

definition deps_of :: "DependencyGraph \<Rightarrow> string \<Rightarrow> string list" where
  "deps_of g agent = (case map_of g agent of None \<Rightarrow> [] | Some ds \<Rightarrow> ds)"

record AgentStatus =
  state :: string
  version :: int
  "output" :: "pyval option"
  error :: "string option"

definition check_dependencies_met ::
  "DependencyGraph \<Rightarrow> string \<Rightarrow> (string \<rightharpoonup> AgentStatus) \<Rightarrow> bool" where
  "check_dependencies_met g agent agent_status =
     list_all (\<lambda>dep. case agent_status dep of None \<Rightarrow> False
                     | Some st \<Rightarrow> state st = ''completed'') (deps_of g agent)"

definition get_dependents :: "DependencyGraph \<Rightarrow> string \<Rightarrow> string list" where
  "get_dependents g agent = map fst (filter (\<lambda>(ag, deps). agent \<in> set deps) g)"

text \<open>
  \<open>has_circular_dependency\<close>: a depth-first search with the dictionary
  \<open>visited\<close> as its state (-1: being visited, 1: processed). \<open>visit\<close> is
  the inner function of the source, \<open>visit_each\<close> is its loop over the
  dependencies of an agent, which returns at the first \<open>True\<close>; the
  \<open>any(...)\<close> over the keys of \<open>dependencies\<close> is the same loop over the
  keys, started with nothing visited. Both return the answer and the new state.

  \<open>visit\<close> calls itself once for every agent on a dependency path, and the
  interpreter refuses a call that would exceed its recursion limit: the call
  raises \<open>RecursionError\<close>, which nothing in the search catches. \<open>limit\<close> is
  the number of nested calls of \<open>visit\<close> that the interpreter still allows at
  the point where \<open>has_circular_dependency\<close> is called; the result \<open>None\<close>
  is the \<open>RecursionError\<close> leaving the function.
\<close>

fun visit ::
    "DependencyGraph \<Rightarrow> nat \<Rightarrow> string \<Rightarrow> (string \<rightharpoonup> int) \<Rightarrow> (bool \<times> (string \<rightharpoonup> int)) option"
  and visit_each ::
    "DependencyGraph \<Rightarrow> nat \<Rightarrow> string list \<Rightarrow> (string \<rightharpoonup> int) \<Rightarrow> (bool \<times> (string \<rightharpoonup> int)) option"
where
  "visit g 0 agent visited = None"
| "visit g (Suc limit) agent visited =
     (if visited agent = Some (- 1) then Some (True, visited)
      else if visited agent = Some 1 then Some (False, visited)
      else (case visit_each g limit (deps_of g agent) (visited(agent \<mapsto> - 1)) of
              None \<Rightarrow> None
            | Some (found, visited') \<Rightarrow>
                if found then Some (True, visited') else Some (False, visited'(agent \<mapsto> 1))))"
| "visit_each g limit [] visited = Some (False, visited)"
| "visit_each g limit (dep # deps) visited =
     (case visit g limit dep visited of
        None \<Rightarrow> None
      | Some (found, visited') \<Rightarrow>
          if found then Some (True, visited') else visit_each g limit deps visited')"

definition has_circular_dependency :: "nat \<Rightarrow> DependencyGraph \<Rightarrow> bool option" where
  "has_circular_dependency limit g = map_option fst (visit_each g limit (map fst g) Map.empty)"

text \<open>
  The same search without the recursion limit, \<open>search\<close> for \<open>visit\<close> and
  \<open>search_each\<close> for its loop. It is what \<open>visit\<close> computes whenever the
  limit lets it return, and the cycle check is measured through it. Its
  recursion ends because every call into an agent of the graph marks one more of
  them, which the termination proof below checks.
\<close>

function search :: "DependencyGraph \<Rightarrow> string \<Rightarrow> (string \<rightharpoonup> int) \<Rightarrow> bool \<times> (string \<rightharpoonup> int)"
  and search_each :: "DependencyGraph \<Rightarrow> string list \<Rightarrow> (string \<rightharpoonup> int) \<Rightarrow> bool \<times> (string \<rightharpoonup> int)"
where
  "search g agent visited =
     (if visited agent = Some (- 1) then (True, visited)
      else if visited agent = Some 1 then (False, visited)
      else (let (found, visited') = search_each g (deps_of g agent) (visited(agent \<mapsto> - 1))
            in if found then (True, visited') else (False, visited'(agent \<mapsto> 1))))"
| "search_each g [] visited = (False, visited)"
| "search_each g (dep # deps) visited =
     (let (found, visited') = search g dep visited
      in if found then (True, visited') else search_each g deps visited')"
  by pat_completeness auto

definition marked :: "(string \<rightharpoonup> int) \<Rightarrow> string \<Rightarrow> bool" where
  "marked visited n = (visited n = Some (- 1) \<or> visited n = Some 1)"

lemma marked_upd [simp]:
  "marked (vis(a \<mapsto> 1)) n = (n = a \<or> marked vis n)"
  "marked (vis(a \<mapsto> - 1)) n = (n = a \<or> marked vis n)"
  by (auto simp: marked_def)

lemma search_marked_dom:
  "search_search_each_dom (Inl (g, a, vis)) \<Longrightarrow> marked vis n \<Longrightarrow> marked (snd (search g a vis)) n"
  "search_search_each_dom (Inr (g, ds, vis)) \<Longrightarrow> marked vis n \<Longrightarrow> marked (snd (search_each g ds vis)) n"
proof (induction g a vis and g ds vis arbitrary: n and n rule: search_search_each.pinduct)
  case (1 g agent visited)
  show ?case
  proof (cases "visited agent = Some (- 1) \<or> visited agent = Some 1")
    case True
    then show ?thesis using 1(1,3) by (auto simp: search.psimps)
  next
    case False
    then have c: "visited agent \<noteq> Some (- 1)" "visited agent \<noteq> Some 1" by auto
    have m: "marked (visited(agent \<mapsto> - 1)) n" using 1(3) by simp
    obtain f v where fv: "search_each g (deps_of g agent) (visited(agent \<mapsto> - 1)) = (f, v)"
      by (cases "search_each g (deps_of g agent) (visited(agent \<mapsto> - 1))")
    have "marked (snd (search_each g (deps_of g agent) (visited(agent \<mapsto> - 1)))) n"
      by (rule 1(2)[OF c m])
    then have "marked v n" by (simp add: fv)
    then show ?thesis using c 1(1) fv
      by (simp add: search.psimps marked_def)
  qed
next
  case (2 g visited)
  then show ?case by (simp add: search_each.psimps)
next
  case (3 g dep deps visited)
  obtain f v where fv: "search g dep visited = (f, v)" by (cases "search g dep visited")
  have "marked v n" using 3(2)[of n] 3(4) fv by simp
  then show ?case using 3(1) 3(3)[OF fv[symmetric] refl, of n] fv
    by (auto simp: search_each.psimps)
qed

definition unmarked :: "DependencyGraph \<Rightarrow> (string \<rightharpoonup> int) \<Rightarrow> string set" where
  "unmarked g visited = {n \<in> set (map fst g). \<not> marked visited n}"

lemma unmarked_mono:
  "(\<And>n. marked vis n \<Longrightarrow> marked vis' n) \<Longrightarrow> card (unmarked g vis') \<le> card (unmarked g vis)"
  by (rule card_mono) (auto simp: unmarked_def)

lemma unmarked_less:
  "a \<in> set (map fst g) \<Longrightarrow> \<not> marked vis a \<Longrightarrow>
   card (unmarked g (vis(a \<mapsto> - 1))) < card (unmarked g vis)"
  by (rule psubset_card_mono) (auto simp: unmarked_def)

lemma deps_of_not_key: "a \<notin> set (map fst g) \<Longrightarrow> deps_of g a = []"
  by (simp add: deps_of_def map_of_eq_None_iff[THEN iffD2])

termination search
proof (relation "inv_image (less_than <*lex*> less_than)
    (\<lambda>x. case x of Inl (g, a, vis) \<Rightarrow> (card (unmarked g vis), 1)
                 | Inr (g, ds, vis) \<Rightarrow> (card (unmarked g vis), 2 * length ds))", goal_cases)
  case 1
  then show ?case by (intro wf_inv_image wf_lex_prod wf_less_than)
next
  case (2 g agent visited)
  then have nm: "\<not> marked visited agent" by (simp add: marked_def)
  show ?case
  proof (cases "agent \<in> set (map fst g)")
    case True
    then show ?thesis using unmarked_less[OF True nm] by simp
  next
    case False
    have "unmarked g (visited(agent \<mapsto> - 1)) = unmarked g visited"
      using False by (auto simp: unmarked_def)
    then show ?thesis using deps_of_not_key[OF False] by simp
  qed
next
  case (3 g dep deps visited)
  then show ?case by simp
next
  case (4 g dep deps visited x xa y)
  have "card (unmarked g y) \<le> card (unmarked g visited)"
    using search_marked_dom(1)[of g dep visited] 4 by (intro unmarked_mono) (metis snd_conv)
  then show ?case by auto
qed



declare search.simps [simp del]

definition search_all :: "DependencyGraph \<Rightarrow> bool" where
  "search_all g = fst (search_each g (map fst g) Map.empty)"

text \<open>
  What the cycle check is measured against: the graph has an edge from an agent
  to each of its dependencies, and it contains a cycle when some agent reaches
  itself along one edge or more.
\<close>

definition edges :: "DependencyGraph \<Rightarrow> (string \<times> string) set" where
  "edges g = {(a, d). d \<in> set (deps_of g a)}"

definition contains_cycle :: "DependencyGraph \<Rightarrow> bool" where
  "contains_cycle g = (\<exists>a. (a, a) \<in> (edges g)\<^sup>+)"

text \<open>
  A graph that is deep rather than small: \<open>n\<close> agents in a ring, named by
  strings of different lengths, each depending on the next and the last one on
  the first.
\<close>

definition deep_name :: "nat \<Rightarrow> string" where
  "deep_name k = replicate (Suc k) (CHR ''a'')"

definition ring :: "nat \<Rightarrow> DependencyGraph" where
  "ring n = map (\<lambda>k. (deep_name k, [deep_name (Suc k mod n)])) [0..<n]"

text \<open>The two marks of the search, as predicates on its state.\<close>

definition grey :: "(string \<rightharpoonup> int) \<Rightarrow> string \<Rightarrow> bool" where
  "grey vis n = (vis n = Some (- 1))"

definition black :: "(string \<rightharpoonup> int) \<Rightarrow> string \<Rightarrow> bool" where
  "black vis n = (vis n = Some 1)"

section \<open>services/trigger_controller.py\<close>

text \<open>
  A callback is an opaque coroutine: the scheduler only sees whether it returns
  a dictionary or raises. \<open>execute_agent\<close> is a coroutine too; it runs in an
  asyncio task, and the one point where it can be suspended is the
  \<open>await\<close> of the callback. A task is therefore either scheduled and not yet
  started, suspended in its callback, finished, or ended by an exception that
  nothing caught. \<open>task_gathered\<close> says that the task is one of those that
  \<open>run_all\<close> passes to \<open>asyncio.gather\<close>.
\<close>

datatype callback_result = Returned pydict | Raised string

datatype phase = Scheduled | Awaiting | Done | Crashed

record task =
  task_agent :: string
  task_phase :: phase
  task_gathered :: bool

text \<open>
  The controller with its four collaborators that matter here. The callbacks
  themselves are not stored, only the keys of \<open>agent_callbacks\<close> in their
  order of registration. Three fields are added to the fields of the class:
  the messages given to \<open>logger.error\<close>, the tasks of the event loop in their
  order of creation, and the record of every invocation of a callback with the
  context it was given.
\<close>

record TriggerController =
  context_manager :: ContextManager
  dependency_graph :: DependencyGraph
  agent_status :: "string \<rightharpoonup> AgentStatus"
  agent_callbacks :: "string list"
  errors_logged :: "string list"
  tasks :: "task list"
  calls :: "(string \<times> pydict) list"

definition TriggerController_init :: TriggerController where
  "TriggerController_init =
     \<lparr>context_manager = ContextManager_init, dependency_graph = [],
      agent_status = Map.empty, agent_callbacks = [], errors_logged = [],
      tasks = [], calls = []\<rparr>"

definition register_agent :: "string \<Rightarrow> string list \<Rightarrow> TriggerController \<Rightarrow> TriggerController" where
  "register_agent agent_id dependencies s =
     s\<lparr>dependency_graph :=
         foldl (\<lambda>g dep. add_dependency agent_id dep g) (dependency_graph s) dependencies,
       agent_status := (agent_status s)(agent_id \<mapsto>
         \<lparr>state = ''pending'', version = 1, output = None, error = None\<rparr>),
       agent_callbacks :=
         (if agent_id \<in> set (agent_callbacks s) then agent_callbacks s
          else agent_callbacks s @ [agent_id])\<rparr>"

definition set_phase :: "nat \<Rightarrow> phase \<Rightarrow> TriggerController \<Rightarrow> TriggerController" where
  "set_phase i p s = s\<lparr>tasks := (tasks s)[i := (tasks s ! i)\<lparr>task_phase := p\<rparr>]\<rparr>"

text \<open>\<open>str(KeyError(k))\<close> is the key in single quotes.\<close>

definition key_error :: "string \<Rightarrow> string" where
  "key_error k = [CHR 0x27] @ k @ [CHR 0x27]"

text \<open>
  The \<open>except Exception\<close> branch of \<open>execute_agent\<close>, run by task \<open>i\<close>. It
  indexes \<open>agent_status\<close> itself: for an agent without a status the
  \<open>KeyError\<close> leaves the coroutine and ends the task.
\<close>

definition except_branch :: "nat \<Rightarrow> string \<Rightarrow> string \<Rightarrow> TriggerController \<Rightarrow> TriggerController" where
  "except_branch i agent_id msg s =
     (case agent_status s agent_id of
        None \<Rightarrow> set_phase i Crashed s
      | Some st \<Rightarrow>
          set_phase i Done
            (s\<lparr>agent_status := (agent_status s)(agent_id \<mapsto> st\<lparr>state := ''failed'', error := Some msg\<rparr>),
               errors_logged := errors_logged s @
                 [''Agent '' @ agent_id @ '' failed with error: '' @ msg]\<rparr>))"

definition new_task :: "bool \<Rightarrow> string \<Rightarrow> task" where
  "new_task gathered agent_id =
     \<lparr>task_agent = agent_id, task_phase = Scheduled, task_gathered = gathered\<rparr>"

text \<open>\<open>_trigger_dependents\<close>: a task for every dependent whose dependencies are met.\<close>

definition trigger_dependents :: "string \<Rightarrow> TriggerController \<Rightarrow> TriggerController" where
  "trigger_dependents agent_id s =
     s\<lparr>tasks := tasks s @
         map (new_task False)
           (filter (\<lambda>dependent. check_dependencies_met (dependency_graph s) dependent (agent_status s))
              (get_dependents (dependency_graph s) agent_id))\<rparr>"

text \<open>
  \<open>execute_agent\<close> from its start to the \<open>await\<close> of the callback, run by
  task \<open>i\<close> for its agent.
\<close>

definition execute_agent_start :: "nat \<Rightarrow> TriggerController \<Rightarrow> TriggerController" where
  "execute_agent_start i s =
     (let agent_id = task_agent (tasks s ! i) in
      if \<not> check_dependencies_met (dependency_graph s) agent_id (agent_status s)
      then set_phase i Done s
      else
        let s1 = s\<lparr>context_manager := initialize_step_context agent_id (context_manager s)\<rparr>;
            input_context = get_step_context (context_manager s1) agent_id
        in if agent_id \<in> set (agent_callbacks s1)
           then set_phase i Awaiting (s1\<lparr>calls := calls s1 @ [(agent_id, input_context)]\<rparr>)
           else except_branch i agent_id (key_error agent_id) s1)"

text \<open>\<open>execute_agent\<close> from the point where the callback returns or raises.\<close>

definition execute_agent_resume ::
  "nat \<Rightarrow> callback_result \<Rightarrow> TriggerController \<Rightarrow> TriggerController" where
  "execute_agent_resume i r s =
     (let agent_id = task_agent (tasks s ! i) in
      case r of
        Raised msg \<Rightarrow> except_branch i agent_id msg s
      | Returned out \<Rightarrow>
          (case out ''output'' of
             None \<Rightarrow> except_branch i agent_id (key_error ''output'') s
           | Some v \<Rightarrow>
               let s1 = s\<lparr>context_manager :=
                          update_step_context agent_id [''output'' \<mapsto> v] (context_manager s)\<rparr>
               in (case agent_status s1 agent_id of
                     None \<Rightarrow> except_branch i agent_id (key_error agent_id) s1
                   | Some st \<Rightarrow>
                       set_phase i Done
                         (trigger_dependents agent_id
                            (s1\<lparr>agent_status := (agent_status s1)(agent_id \<mapsto>
                                  st\<lparr>state := ''completed'', output := Some v\<rparr>)\<rparr>)))))"

text \<open>
  \<open>run_all\<close> up to its \<open>await asyncio.gather(*tasks)\<close>: with a cycle it logs
  the error and returns, otherwise it creates a task for every registered agent
  whose dependencies are met. Only these tasks are gathered. The cycle check is
  called outside any \<open>try\<close>, so its \<open>RecursionError\<close> leaves \<open>run_all\<close>:
  the result \<open>None\<close>. \<open>limit\<close> is the number of nested calls that the
  interpreter allows to the cycle check at this point.
\<close>

definition run_all :: "nat \<Rightarrow> TriggerController \<Rightarrow> TriggerController option" where
  "run_all limit s =
     (case has_circular_dependency limit (dependency_graph s) of
        None \<Rightarrow> None
      | Some cyclic \<Rightarrow>
          if cyclic
          then Some (s\<lparr>errors_logged := errors_logged s @
                 [''Circular dependency detected. Cannot execute agents.'']\<rparr>)
          else Some (s\<lparr>tasks := map (\<lambda>t. t\<lparr>task_gathered := False\<rparr>) (tasks s) @
                 map (new_task True)
                   (filter (\<lambda>agent_id. check_dependencies_met (dependency_graph s) agent_id (agent_status s))
                      (agent_callbacks s))\<rparr>))"

text \<open>
  \<open>gather\<close> is over, and \<open>run_all\<close> returns, once every gathered task has
  finished; an exception that ended a gathered task is raised by \<open>run_all\<close>.
\<close>

definition run_all_returns :: "TriggerController \<Rightarrow> bool" where
  "run_all_returns s = list_all (\<lambda>t. \<not> task_gathered t \<or> task_phase t = Done) (tasks s)"

definition run_all_raises :: "TriggerController \<Rightarrow> bool" where
  "run_all_raises s = list_ex (\<lambda>t. task_gathered t \<and> task_phase t = Crashed) (tasks s)"

text \<open>
  The event loop runs one task at a time up to its next suspension. A schedule
  is the list of these steps: \<open>Start i\<close> starts the scheduled task \<open>i\<close>,
  \<open>Finish i r\<close> resumes the task \<open>i\<close> that waits for its callback, which has
  returned or raised \<open>r\<close>. A step that names no such task is not a step of the
  loop.
\<close>

datatype event = Start nat | Finish nat callback_result

fun step :: "event \<Rightarrow> TriggerController \<Rightarrow> TriggerController option" where
  "step (Start i) s =
     (if i < length (tasks s) \<and> task_phase (tasks s ! i) = Scheduled
      then Some (execute_agent_start i s) else None)"
| "step (Finish i r) s =
     (if i < length (tasks s) \<and> task_phase (tasks s ! i) = Awaiting
      then Some (execute_agent_resume i r s) else None)"

fun exec :: "event list \<Rightarrow> TriggerController \<Rightarrow> TriggerController option" where
  "exec [] s = Some s"
| "exec (e # es) s = (case step e s of None \<Rightarrow> None | Some s' \<Rightarrow> exec es s')"

section \<open>engine/proposal_engine.py\<close>

text \<open>
  The recovery point holds copies of the master context and of every step
  context; recovery puts both back and resets every status.
\<close>

definition create_recovery_point :: "TriggerController \<Rightarrow> pydict \<times> (string \<rightharpoonup> pydict)" where
  "create_recovery_point s =
     (master_context (context_manager s), step_contexts (context_manager s))"

definition recover_from_error ::
  "pydict \<times> (string \<rightharpoonup> pydict) \<Rightarrow> TriggerController \<Rightarrow> TriggerController" where
  "recover_from_error recovery_point s =
     s\<lparr>context_manager := (context_manager s)
          \<lparr>master_context := fst recovery_point, step_contexts := snd recovery_point\<rparr>,
       agent_status := (\<lambda>agent_id.
          map_option (\<lambda>st. st\<lparr>state := ''pending'', output := None, error := None\<rparr>)
            (agent_status s agent_id))\<rparr>"

text \<open>
  What is left to do in a state: the tasks that have not finished, and the
  registered agents that are pending with all their dependencies completed. The
  scheduler is quiescent when there is neither.
\<close>

definition outstanding :: "TriggerController \<Rightarrow> task list" where
  "outstanding s =
     filter (\<lambda>t. task_phase t = Scheduled \<or> task_phase t = Awaiting) (tasks s)"

definition eligible_pending :: "TriggerController \<Rightarrow> string list" where
  "eligible_pending s =
     filter (\<lambda>agent_id. map_option state (agent_status s agent_id) = Some ''pending'' \<and>
                check_dependencies_met (dependency_graph s) agent_id (agent_status s))
       (agent_callbacks s)"

definition quiescent :: "TriggerController \<Rightarrow> bool" where
  "quiescent s = (outstanding s = [] \<and> eligible_pending s = [])"

text \<open>Two registered agents, \<open>mid\<close> depending on \<open>root\<close>, and three in a cycle.\<close>

definition two_agents :: TriggerController where
  "two_agents =
     register_agent ''mid'' [''root''] (register_agent ''root'' [] TriggerController_init)"

definition cyclic_agents :: TriggerController where
  "cyclic_agents =
     register_agent ''C'' [''A''] (register_agent ''B'' [''C'']
       (register_agent ''A'' [''B''] TriggerController_init))"


text \<open>
  \<open>n\<close> agents registered one after the other, the agent number \<open>k\<close>
  depending on the agent \<open>h k\<close>; in \<open>ring_agents\<close> on the next one and the
  last on the first, which gives the graph \<open>ring n\<close>.
\<close>

definition chain_agents :: "(nat \<Rightarrow> string) \<Rightarrow> nat \<Rightarrow> TriggerController" where
  "chain_agents h n =
     foldl (\<lambda>s k. register_agent (deep_name k) [h k] s) TriggerController_init [0..<n]"

definition ring_agents :: "nat \<Rightarrow> TriggerController" where
  "ring_agents n = chain_agents (\<lambda>k. deep_name (Suc k mod n)) n"

text \<open>The run of \<open>two_agents\<close> in which the callback of \<open>root\<close> raises.\<close>

definition failed_run :: TriggerController where
  "failed_run =
     execute_agent_resume 0 (Raised ''boom'') (execute_agent_start 0 (the (run_all 1000 two_agents)))"

text \<open>
  A controller whose store already has a step context for \<open>scope_agent\<close>,
  built from an earlier master context, as a second run on the same store finds
  it.
\<close>

definition reused_store :: ContextManager where
  "reused_store =
     update_master_context [''client_info'' \<mapsto> PStr ''new client'']
       (initialize_step_context ''scope_agent''
          (update_master_context [''client_info'' \<mapsto> PStr ''old client'']
             ContextManager_init))"

definition reused_controller :: TriggerController where
  "reused_controller =
     (register_agent ''scope_agent'' [] TriggerController_init)
       \<lparr>context_manager := reused_store\<rparr>"

text \<open>
  The controller as a complete first run of \<open>two_agents\<close> leaves it, with both
  agents completed, once its finished tasks are gone from the event loop and
  with an empty record of invocations: the state in which a second
  \<open>run_all\<close> on the same controller starts.
\<close>

definition used_controller :: TriggerController where
  "used_controller =
     (execute_agent_resume 1 (Returned [''output'' \<mapsto> PStr ''M''])
        (execute_agent_start 1
           (execute_agent_resume 0 (Returned [''output'' \<mapsto> PStr ''R''])
              (execute_agent_start 0 (the (run_all 1000 two_agents))))))
       \<lparr>tasks := [], calls := []\<rparr>"

text \<open>
  The run of \<open>two_agents\<close> in which \<open>root\<close> completes, followed by the
  recovery to the recovery point taken before the run, as \<open>generate_proposal\<close>
  does when the assembly of the proposal raises.
\<close>

definition recovered_run :: TriggerController where
  "recovered_run =
     recover_from_error (create_recovery_point two_agents)
       (execute_agent_resume 0 (Returned [''output'' \<mapsto> PStr ''R''])
          (execute_agent_start 0 (the (run_all 1000 two_agents))))"

text \<open>Two observations of a schedule: the state of an agent and the agents invoked.\<close>

definition state_after :: "event list \<Rightarrow> TriggerController \<Rightarrow> string \<Rightarrow> string option" where
  "state_after evs s agent_id =
     (case exec evs s of None \<Rightarrow> None
      | Some s' \<Rightarrow> map_option state (agent_status s' agent_id))"

definition invoked_after :: "event list \<Rightarrow> TriggerController \<Rightarrow> string list option" where
  "invoked_after evs s = map_option (map fst \<circ> calls) (exec evs s)"

text \<open>
  The notions that the properties of a run are stated with. A status is terminal
  when its state is completed or failed, a task is active until it has finished.
  A controller is fresh when every status it has is pending, the event loop has
  no task, no invocation is recorded yet, and its two ordered dictionaries have
  distinct keys; this is the state in which registration leaves it. \<open>run_inv\<close>
  collects what then holds in every state of the run: an agent has at most one
  task, an agent with an active task is not terminal, the dependencies of every
  agent with a task are completed, only agents with a task have left the pending
  state, and a callback was invoked at most once, by a task that has started.
\<close>

definition terminal :: "(string \<rightharpoonup> AgentStatus) \<Rightarrow> string \<Rightarrow> bool" where
  "terminal sts a = (\<exists>st. sts a = Some st \<and> (state st = ''completed'' \<or> state st = ''failed''))"

definition active :: "task \<Rightarrow> bool" where
  "active t = (task_phase t = Scheduled \<or> task_phase t = Awaiting)"

definition fresh :: "TriggerController \<Rightarrow> bool" where
  "fresh s =
     ((\<forall>a st. agent_status s a = Some st \<longrightarrow> state st = ''pending'') \<and>
      tasks s = [] \<and> calls s = [] \<and>
      distinct (map fst (dependency_graph s)) \<and> distinct (agent_callbacks s))"

definition run_inv :: "TriggerController \<Rightarrow> bool" where
  "run_inv s =
     (distinct (map fst (dependency_graph s)) \<and>
      distinct (map task_agent (tasks s)) \<and>
      (\<forall>t \<in> set (tasks s). active t \<longrightarrow> \<not> terminal (agent_status s) (task_agent t)) \<and>
      (\<forall>t \<in> set (tasks s).
         check_dependencies_met (dependency_graph s) (task_agent t) (agent_status s)) \<and>
      (\<forall>a st. agent_status s a = Some st \<longrightarrow> state st \<noteq> ''pending'' \<longrightarrow>
         a \<in> task_agent ` set (tasks s) \<and> terminal (agent_status s) a) \<and>
      distinct (map fst (calls s)) \<and>
      (\<forall>a \<in> set (map fst (calls s)).
         \<exists>t \<in> set (tasks s). task_agent t = a \<and> task_phase t \<noteq> Scheduled))"

section \<open>Version counters\<close>

text \<open>
  C4. The version counter of a step context goes up by one with every
  \<open>update_step_context\<close>, but \<open>update_master_context\<close> never touches the
  counter of the master context: after an update of the empty store the master
  version is still 0, while one update of a step context gives version 1.
\<close>

theorem update_master_context_keeps_version:
  "get_context_version
     (update_master_context [''client_info'' \<mapsto> PStr ''acme''] ContextManager_init)
     ''master_context'' = 0 \<and>
   get_context_version
     (update_step_context ''scope_agent'' [''output'' \<mapsto> PStr ''s''] ContextManager_init)
     ''scope_agent'' = 1"
  by (simp add: get_context_version_def update_master_context_def update_step_context_def
      log_context_update_def ContextManager_init_def dict_get_def Let_def)


section \<open>The cycle check\<close>

lemma grey_upd [simp]:
  "grey (vis(a \<mapsto> - 1)) n = (n = a \<or> grey vis n)"
  "grey (vis(a \<mapsto> 1)) n = (n \<noteq> a \<and> grey vis n)"
  by (auto simp: grey_def)

lemma black_upd [simp]:
  "black (vis(a \<mapsto> 1)) n = (n = a \<or> black vis n)"
  "black (vis(a \<mapsto> - 1)) n = (n \<noteq> a \<and> black vis n)"
  by (auto simp: black_def)

lemma search_cases:
  "search g a vis = (r, vis') \<Longrightarrow>
     (grey vis a \<and> r \<and> vis' = vis) \<or>
     (black vis a \<and> \<not> r \<and> vis' = vis) \<or>
     (\<not> grey vis a \<and> \<not> black vis a \<and>
        (\<exists>v. search_each g (deps_of g a) (vis(a \<mapsto> - 1)) = (r, v) \<and>
             vis' = (if r then v else v(a \<mapsto> 1))))"
  by (subst (asm) search.simps) (auto simp: grey_def black_def split: if_splits prod.splits)

lemma search_each_Cons_cases:
  "search_each g (d # ds) vis = (r, vis') \<Longrightarrow>
     (r \<and> search g d vis = (True, vis')) \<or>
     (\<exists>v. search g d vis = (False, v) \<and> search_each g ds v = (r, vis'))"
  by (auto split: prod.splits if_splits)

lemma search_False_effect:
  "search g a vis = (False, vis') \<Longrightarrow>
     (\<forall>n. grey vis' n = grey vis n) \<and> (\<forall>n. black vis n \<longrightarrow> black vis' n) \<and> black vis' a"
  "search_each g ds vis = (False, vis') \<Longrightarrow>
     (\<forall>n. grey vis' n = grey vis n) \<and> (\<forall>n. black vis n \<longrightarrow> black vis' n) \<and>
     (\<forall>d \<in> set ds. black vis' d)"
proof (induction g a vis and g ds vis arbitrary: vis' and vis' rule: search_search_each.induct)
  case (1 g agent visited)
  from search_cases[OF 1(2)] show ?case
  proof (elim disjE conjE exE)
    fix v
    assume ng: "\<not> grey visited agent" and nb: "\<not> black visited agent"
      and ve: "search_each g (deps_of g agent) (visited(agent \<mapsto> - 1)) = (False, v)"
      and v': "vis' = (if False then v else v(agent \<mapsto> 1))"
    have ih: "(\<forall>n. grey v n = grey (visited(agent \<mapsto> - 1)) n) \<and>
              (\<forall>n. black (visited(agent \<mapsto> - 1)) n \<longrightarrow> black v n)"
      using 1(1)[OF _ _ ve] ng nb by (simp add: grey_def black_def)
    show ?thesis using ih ng nb v' by (auto simp: grey_def black_def)
  qed auto
next
  case (2 g visited)
  then show ?case by simp
next
  case (3 g dep deps visited)
  from search_each_Cons_cases[OF 3(3)] obtain v where
    a: "search g dep visited = (False, v)" and b: "search_each g deps v = (False, vis')" by auto
  note ih1 = 3(1)[OF a]
  note ih2 = 3(2)[OF a[symmetric] refl _ b]
  show ?case using ih1 ih2 by auto
qed


lemma edges_deps: "d \<in> set (deps_of g a) \<Longrightarrow> (a, d) \<in> edges g"
  by (simp add: edges_def)

lemma search_True_cycle:
  "fst (search g a vis) \<Longrightarrow> (\<forall>x. grey vis x \<longrightarrow> (x, a) \<in> (edges g)\<^sup>+) \<Longrightarrow> contains_cycle g"
  "fst (search_each g ds vis) \<Longrightarrow>
     (\<forall>x. grey vis x \<longrightarrow> (\<forall>d \<in> set ds. (x, d) \<in> (edges g)\<^sup>+)) \<Longrightarrow> contains_cycle g"
proof (induction g a vis and g ds vis rule: search_search_each.induct)
  case (1 g agent visited)
  obtain r vis' where rv: "search g agent visited = (r, vis')" by (cases "search g agent visited")
  with 1(2) have r by simp
  from search_cases[OF rv] show ?case
  proof (elim disjE conjE exE)
    assume "grey visited agent"
    then have "(agent, agent) \<in> (edges g)\<^sup>+" using 1(3) by blast
    then show ?thesis unfolding contains_cycle_def by blast
  next
    assume "\<not> r" then show ?thesis using \<open>r\<close> by simp
  next
    fix v
    assume ng: "\<not> grey visited agent" and nb: "\<not> black visited agent"
      and ve: "search_each g (deps_of g agent) (visited(agent \<mapsto> - 1)) = (r, v)"
    have pre: "\<forall>x. grey (visited(agent \<mapsto> - 1)) x \<longrightarrow>
                 (\<forall>d \<in> set (deps_of g agent). (x, d) \<in> (edges g)\<^sup>+)"
    proof (intro allI impI ballI)
      fix x d
      assume gx: "grey (visited(agent \<mapsto> - 1)) x" and d: "d \<in> set (deps_of g agent)"
      have e: "(agent, d) \<in> edges g" using d by (rule edges_deps)
      show "(x, d) \<in> (edges g)\<^sup>+"
      proof (cases "x = agent")
        case True
        then show ?thesis using e by blast
      next
        case False
        then have "grey visited x" using gx by (simp add: grey_def)
        then have "(x, agent) \<in> (edges g)\<^sup>+" using 1(3) by blast
        then show ?thesis using e by (rule trancl_into_trancl)
      qed
    qed
    have f: "fst (search_each g (deps_of g agent) (visited(agent \<mapsto> - 1)))"
      using ve \<open>r\<close> by simp
    have c: "visited agent \<noteq> Some (- 1)" "visited agent \<noteq> Some 1"
      using ng nb by (simp_all add: grey_def black_def)
    show ?thesis by (rule 1(1)[OF c f pre])
  qed
next
  case (2 g visited)
  then show ?case by simp
next
  case (3 g dep deps visited)
  obtain r v where rv: "search g dep visited = (r, v)" by (cases "search g dep visited")
  show ?case
  proof (cases r)
    case True
    then have "fst (search g dep visited)" using rv by simp
    then show ?thesis using 3(1) 3(4) by simp
  next
    case False
    then have f: "fst (search_each g deps v)" using 3(3) rv by simp
    have "\<forall>n. grey v n = grey visited n"
      using search_False_effect(1)[of g dep visited v] rv False by simp
    then have "\<forall>x. grey v x \<longrightarrow> (\<forall>d \<in> set deps. (x, d) \<in> (edges g)\<^sup>+)"
      using 3(4) by simp
    then show ?thesis using 3(2)[OF rv[symmetric] refl _ f] False by simp
  qed
qed

definition black_closed :: "DependencyGraph \<Rightarrow> (string \<rightharpoonup> int) \<Rightarrow> bool" where
  "black_closed g vis =
     ((\<forall>b s. black vis b \<longrightarrow> (b, s) \<in> edges g \<longrightarrow> black vis s) \<and>
      (\<forall>b. black vis b \<longrightarrow> (b, b) \<notin> (edges g)\<^sup>+))"

lemma black_closed_reach:
  "(s, t) \<in> (edges g)\<^sup>* \<Longrightarrow> black_closed g vis \<Longrightarrow> black vis s \<Longrightarrow> black vis t"
  by (induction rule: rtrancl_induct) (auto simp: black_closed_def)

lemma black_closed_add:
  assumes cl: "black_closed g v"
    and deps: "\<forall>d \<in> set (deps_of g a). black v d"
    and na: "\<not> black v a"
  shows "black_closed g (v(a \<mapsto> 1))"
proof -
  have succ: "\<And>s. (a, s) \<in> edges g \<Longrightarrow> black v s"
    using deps by (simp add: edges_def)
  have "(a, a) \<notin> (edges g)\<^sup>+"
  proof
    assume "(a, a) \<in> (edges g)\<^sup>+"
    then obtain s where "(a, s) \<in> edges g" "(s, a) \<in> (edges g)\<^sup>*"
      by (meson converse_tranclE rtrancl_eq_or_trancl r_into_rtrancl trancl_into_rtrancl)
    then have "black v a" using black_closed_reach[OF _ cl] succ by blast
    then show False using na by simp
  qed
  then show ?thesis using cl succ unfolding black_closed_def black_def by auto
qed

lemma search_False_closed:
  "search g a vis = (False, vis') \<Longrightarrow> black_closed g vis \<Longrightarrow> black_closed g vis'"
  "search_each g ds vis = (False, vis') \<Longrightarrow> black_closed g vis \<Longrightarrow> black_closed g vis'"
proof (induction g a vis and g ds vis arbitrary: vis' and vis' rule: search_search_each.induct)
  case (1 g agent visited)
  from search_cases[OF 1(2)] show ?case
  proof (elim disjE conjE exE)
    fix v
    assume ng: "\<not> grey visited agent" and nb: "\<not> black visited agent"
      and ve: "search_each g (deps_of g agent) (visited(agent \<mapsto> - 1)) = (False, v)"
      and v': "vis' = (if False then v else v(agent \<mapsto> 1))"
    have c: "visited agent \<noteq> Some (- 1)" "visited agent \<noteq> Some 1"
      using ng nb by (simp_all add: grey_def black_def)
    have "black_closed g (visited(agent \<mapsto> - 1))"
      using 1(3) nb unfolding black_closed_def black_def by auto
    then have cl: "black_closed g v" by (rule 1(1)[OF c ve])
    note eff = search_False_effect(2)[OF ve]
    have "grey v agent" using eff by (simp add: grey_def)
    then have na: "\<not> black v agent" by (simp add: grey_def black_def)
    have v'': "vis' = v(agent \<mapsto> 1)" using v' by simp
    have "\<forall>d \<in> set (deps_of g agent). black v d" using eff by blast
    then show ?thesis unfolding v'' using cl na by (intro black_closed_add)
  qed (use 1(3) in auto)
next
  case (2 g visited)
  then show ?case by simp
next
  case (3 g dep deps visited)
  from search_each_Cons_cases[OF 3(3)] obtain v where
    a: "search g dep visited = (False, v)" and b: "search_each g deps v = (False, vis')" by auto
  show ?case using 3(1)[OF a 3(4)] 3(2)[OF a[symmetric] refl _ b] by simp
qed

lemma search_all_iff: "search_all g = contains_cycle g"
proof
  assume "search_all g"
  then show "contains_cycle g"
    using search_True_cycle(2)[of g "map fst g" Map.empty]
    by (simp add: search_all_def grey_def)
next
  assume cyc: "contains_cycle g"
  show "search_all g"
  proof (rule ccontr)
    assume "\<not> search_all g"
    then obtain vis' where ve: "search_each g (map fst g) Map.empty = (False, vis')"
      unfolding search_all_def by (cases "search_each g (map fst g) Map.empty") auto
    have "black_closed g Map.empty" by (simp add: black_closed_def black_def)
    then have cl: "black_closed g vis'" using search_False_closed(2)[OF ve] by simp
    have keys: "\<forall>d \<in> set (map fst g). black vis' d" using search_False_effect(2)[OF ve] by simp
    from cyc obtain a where a: "(a, a) \<in> (edges g)\<^sup>+" unfolding contains_cycle_def by blast
    then obtain s where "(a, s) \<in> edges g" by (meson converse_tranclE)
    then have "deps_of g a \<noteq> []" by (auto simp: edges_def)
    then have "a \<in> set (map fst g)" using deps_of_not_key by blast
    then have "black vis' a" using keys by blast
    then show False using cl a by (simp add: black_closed_def)
  qed
qed



lemma visit_search:
  "visit g limit a vis = Some r \<Longrightarrow> search g a vis = r"
  "visit_each g limit ds vis = Some r \<Longrightarrow> search_each g ds vis = r"
proof (induction g limit a vis and g limit ds vis arbitrary: r and r rule: visit_visit_each.induct)
  case (1 g agent visited)
  then show ?case by simp
next
  case (2 g limit agent visited)
  show ?case
  proof (cases "visited agent = Some (- 1) \<or> visited agent = Some 1")
    case True
    then show ?thesis using 2(2) by (subst search.simps) auto
  next
    case False
    then have c: "visited agent \<noteq> Some (- 1)" "visited agent \<noteq> Some 1" by auto
    obtain f v where ve: "visit_each g limit (deps_of g agent) (visited(agent \<mapsto> - 1)) = Some (f, v)"
      using 2(2) c by (auto split: option.splits)
    have se: "search_each g (deps_of g agent) (visited(agent \<mapsto> - 1)) = (f, v)"
      by (rule 2(1)[OF c ve])
    have "r = (if f then (True, v) else (False, v(agent \<mapsto> 1)))"
      using 2(2) c unfolding visit.simps ve by (simp split: if_splits)
    then show ?thesis using c se by (subst search.simps) simp
  qed
next
  case (3 g limit visited)
  then show ?case by (simp add: search.simps)
next
  case (4 g limit dep deps visited)
  obtain f v where vd: "visit g limit dep visited = Some (f, v)"
    using 4(3) by (auto split: option.splits)
  have sd: "search g dep visited = (f, v)" by (rule 4(1)[OF vd])
  show ?case
  proof (cases f)
    case True
    then have "r = (True, v)" using 4(3) vd by simp
    then show ?thesis using sd True by (simp add: search.simps)
  next
    case False
    then have "visit_each g limit deps v = Some r" using 4(3) vd by simp
    then have "search_each g deps v = r" using 4(2)[OF vd _ False] by simp
    then show ?thesis using sd False by (simp add: search.simps)
  qed
qed

lemma visit_marked:
  "visit g limit a vis = Some (b, vis') \<Longrightarrow> marked vis n \<Longrightarrow> marked vis' n"
  "visit_each g limit ds vis = Some (b, vis') \<Longrightarrow> marked vis n \<Longrightarrow> marked vis' n"
proof (induction g limit a vis and g limit ds vis arbitrary: b vis' and b vis'
    rule: visit_visit_each.induct)
  case (1 g agent visited)
  then show ?case by simp
next
  case (2 g limit agent visited)
  show ?case
  proof (cases "visited agent = Some (- 1) \<or> visited agent = Some 1")
    case True
    then show ?thesis using 2(2,3) by auto
  next
    case False
    then have c: "visited agent \<noteq> Some (- 1)" "visited agent \<noteq> Some 1" by auto
    obtain f v where ve: "visit_each g limit (deps_of g agent) (visited(agent \<mapsto> - 1)) = Some (f, v)"
      using 2(2) c by (auto split: option.splits)
    have m: "marked (visited(agent \<mapsto> - 1)) n" using 2(3) by simp
    have mv: "marked v n" by (rule 2(1)[OF c ve m])
    have "vis' = v \<or> vis' = v(agent \<mapsto> 1)"
      using 2(2) c unfolding visit.simps ve by (simp split: if_splits)
    then show ?thesis
    proof
      assume e: "vis' = v"
      show ?thesis unfolding e by (rule mv)
    next
      assume e: "vis' = v(agent \<mapsto> 1)"
      show ?thesis by (subst e) (use mv in simp)
    qed
  qed
next
  case (3 g limit visited)
  then show ?case by simp
next
  case (4 g limit dep deps visited)
  obtain f v where vd: "visit g limit dep visited = Some (f, v)"
    using 4(3) by (auto split: option.splits)
  have mv: "marked v n" by (rule 4(1)[OF vd 4(4)])
  show ?case
  proof (cases f)
    case True
    then have "vis' = v" using 4(3) vd by simp
    then show ?thesis using mv by simp
  next
    case False
    then have "visit_each g limit deps v = Some (b, vis')" using 4(3) vd by simp
    then show ?thesis using 4(2)[OF vd _ False _ mv] by simp
  qed
qed

lemma visit_enough:
  "card (unmarked g vis) < limit \<Longrightarrow> visit g limit a vis \<noteq> None"
  "card (unmarked g vis) < limit \<Longrightarrow> visit_each g limit ds vis \<noteq> None"
proof (induction g limit a vis and g limit ds vis rule: visit_visit_each.induct)
  case (1 g agent visited)
  then show ?case by simp
next
  case (2 g limit agent visited)
  show ?case
  proof (cases "visited agent = Some (- 1) \<or> visited agent = Some 1")
    case True
    then show ?thesis by auto
  next
    case False
    then have c: "visited agent \<noteq> Some (- 1)" "visited agent \<noteq> Some 1" by auto
    then have nm: "\<not> marked visited agent" by (simp add: marked_def)
    have "visit_each g limit (deps_of g agent) (visited(agent \<mapsto> - 1)) \<noteq> None"
    proof (cases "agent \<in> set (map fst g)")
      case True
      have "card (unmarked g (visited(agent \<mapsto> - 1))) < limit"
        using unmarked_less[OF True nm] 2(2) by simp
      then show ?thesis by (rule 2(1)[OF c])
    next
      case False
      then show ?thesis using deps_of_not_key[OF False] by simp
    qed
    then show ?thesis using c by (auto split: option.splits)
  qed
next
  case (3 g limit visited)
  then show ?case by simp
next
  case (4 g limit dep deps visited)
  have "visit g limit dep visited \<noteq> None" by (rule 4(1)[OF 4(3)])
  then obtain f v where vd: "visit g limit dep visited = Some (f, v)" by auto
  show ?case
  proof (cases f)
    case True
    then show ?thesis using vd by simp
  next
    case False
    have "card (unmarked g v) \<le> card (unmarked g visited)"
      using visit_marked(1)[OF vd] by (rule unmarked_mono)
    then have "card (unmarked g v) < limit" using 4(3) by simp
    then have "visit_each g limit deps v \<noteq> None" using 4(2)[OF vd _ False] by simp
    then show ?thesis using vd False by simp
  qed
qed

lemma has_circular_dependency_sound:
  "has_circular_dependency limit g = Some b \<Longrightarrow> b = contains_cycle g"
proof -
  assume "has_circular_dependency limit g = Some b"
  then obtain r where r: "visit_each g limit (map fst g) Map.empty = Some r" "fst r = b"
    by (auto simp: has_circular_dependency_def)
  from visit_search(2)[OF r(1)] r(2) have "search_all g = b" by (simp add: search_all_def)
  then show ?thesis by (simp add: search_all_iff)
qed

lemma has_circular_dependency_enough:
  assumes "length g < limit"
  shows "has_circular_dependency limit g = Some (contains_cycle g)"
proof -
  have "card (unmarked g Map.empty) \<le> card (set (map fst g))"
    by (rule card_mono) (auto simp: unmarked_def)
  also have "\<dots> \<le> length g" using card_length[of "map fst g"] by simp
  finally have "card (unmarked g Map.empty) < limit" using assms by simp
  then have "visit_each g limit (map fst g) Map.empty \<noteq> None" by (rule visit_enough(2))
  then obtain b where b: "has_circular_dependency limit g = Some b"
    by (auto simp: has_circular_dependency_def)
  from has_circular_dependency_sound[OF b] b show ?thesis by simp
qed

text \<open>
  A ring of \<open>n\<close> agents, each depending on the next and the last one on the
  first. The search goes once around it, one call of \<open>visit\<close> inside the
  other, so it needs \<open>n + 1\<close> nested calls to come back to the first agent.
\<close>

lemma deep_name_inj [simp]: "(deep_name j = deep_name k) = (j = k)"
proof
  assume "deep_name j = deep_name k"
  then have "length (deep_name j) = length (deep_name k)" by simp
  then show "j = k" by (simp add: deep_name_def)
qed simp

lemma map_of_deep:
  "map_of (map (\<lambda>k. (deep_name k, h k)) xs) (deep_name k) = (if k \<in> set xs then Some (h k) else None)"
  by (induction xs) auto

lemma deps_of_ring: "k < n \<Longrightarrow> deps_of (ring n) (deep_name k) = [deep_name (Suc k mod n)]"
  by (simp add: deps_of_def ring_def map_of_deep)

lemma visit_ring_raises:
  "limit + k \<le> n \<Longrightarrow> \<forall>j. k \<le> j \<and> j < n \<longrightarrow> vis (deep_name j) = None \<Longrightarrow>
   visit (ring n) limit (deep_name (k mod n)) vis = None"
proof (induction limit arbitrary: k vis)
  case 0
  then show ?case by simp
next
  case (Suc limit)
  then have k: "k < n" by simp
  then have v: "vis (deep_name k) = None" using Suc.prems(2) by simp
  have "visit (ring n) limit (deep_name (Suc k mod n)) (vis(deep_name k \<mapsto> - 1)) = None"
  proof (rule Suc.IH)
    show "limit + Suc k \<le> n" using Suc.prems(1) by simp
    show "\<forall>j. Suc k \<le> j \<and> j < n \<longrightarrow> (vis(deep_name k \<mapsto> - 1)) (deep_name j) = None"
      using Suc.prems(2) by simp
  qed
  then show ?case using k v by (simp add: deps_of_ring)
qed

lemma has_circular_dependency_ring_raises:
  assumes "0 < n" "limit \<le> n"
  shows "has_circular_dependency limit (ring n) = None"
proof -
  have ks: "map fst (ring n) = deep_name 0 # map deep_name [1..<n]"
    using assms(1) by (simp add: ring_def upt_conv_Cons comp_def del: upt_Suc)
  have "visit (ring n) limit (deep_name (0 mod n)) Map.empty = None"
    by (rule visit_ring_raises) (use assms(2) in simp_all)
  then show ?thesis by (simp add: has_circular_dependency_def ks)
qed

lemma ring_edge: "k < n \<Longrightarrow> (deep_name k, deep_name (Suc k mod n)) \<in> edges (ring n)"
  by (simp add: edges_def deps_of_ring)

lemma ring_reach: "k < n \<Longrightarrow> (deep_name 0, deep_name k) \<in> (edges (ring n))\<^sup>*"
proof (induction k)
  case 0
  then show ?case by simp
next
  case (Suc k)
  then have "(deep_name 0, deep_name k) \<in> (edges (ring n))\<^sup>*" by simp
  moreover have "(deep_name k, deep_name (Suc k)) \<in> edges (ring n)"
    using ring_edge[of k n] Suc.prems by simp
  ultimately show ?case by (rule rtrancl_into_rtrancl)
qed

lemma contains_cycle_ring: "0 < n \<Longrightarrow> contains_cycle (ring n)"
proof -
  assume n: "0 < n"
  then have "(deep_name 0, deep_name (n - 1)) \<in> (edges (ring n))\<^sup>*" by (intro ring_reach) simp
  moreover have "(deep_name (n - 1), deep_name 0) \<in> edges (ring n)"
    using ring_edge[of "n - 1" n] n by simp
  ultimately have "(deep_name 0, deep_name 0) \<in> (edges (ring n))\<^sup>+"
    by (rule rtrancl_into_trancl1)
  then show ?thesis unfolding contains_cycle_def by blast
qed

lemma visit_pos:
  "0 < limit \<Longrightarrow> visit g limit agent visited =
     (if visited agent = Some (- 1) then Some (True, visited)
      else if visited agent = Some 1 then Some (False, visited)
      else (case visit_each g (limit - 1) (deps_of g agent) (visited(agent \<mapsto> - 1)) of
              None \<Rightarrow> None
            | Some (found, visited') \<Rightarrow>
                if found then Some (True, visited') else Some (False, visited'(agent \<mapsto> 1))))"
  by (cases limit) simp_all

text \<open>
  C7, as stated, fails: the search does not return on every finite graph. On
  the ring of 1200 agents, which contains a cycle, with the 1000 nested calls
  that the default recursion limit allows at most, \<open>has_circular_dependency\<close>
  ends with \<open>RecursionError\<close> instead of returning true.
\<close>

theorem deep_graph_raises_counterexample:
  "contains_cycle (ring 1200) \<and> has_circular_dependency 1000 (ring 1200) = None"
  using contains_cycle_ring[of 1200] has_circular_dependency_ring_raises[of 1200 1000] by simp

text \<open>
  C7, amended. \<open>has_circular_dependency\<close> always ends, with a boolean or with
  \<open>RecursionError\<close>. When it returns a boolean, that is true exactly when the
  dependency graph contains a directed cycle, and it does return one whenever
  the graph has fewer agents with dependencies than \<open>limit\<close>, the number of
  nested calls the interpreter still allows. The three-agent cycle A, B, C gives
  true, a diamond (B and C depend on A, D depends on B and C) gives false.
\<close>

theorem has_circular_dependency_correct:
  "(has_circular_dependency limit g = None \<or>
    has_circular_dependency limit g = Some (contains_cycle g)) \<and>
   (length g < limit \<longrightarrow> has_circular_dependency limit g = Some (contains_cycle g))"
proof -
  have "has_circular_dependency limit g = None \<or>
        has_circular_dependency limit g = Some (contains_cycle g)"
  proof (cases "has_circular_dependency limit g")
    case None
    then show ?thesis by simp
  next
    case (Some b)
    then show ?thesis using has_circular_dependency_sound[OF Some] by simp
  qed
  then show ?thesis using has_circular_dependency_enough by blast
qed

theorem has_circular_dependency_correct_witness:
  "length [(''A'', [''B'']), (''B'', [''C'']), (''C'', [''A''])] < (4::nat) \<and>
   has_circular_dependency 4 [(''A'', [''B'']), (''B'', [''C'']), (''C'', [''A''])] = Some True \<and>
   contains_cycle [(''A'', [''B'']), (''B'', [''C'']), (''C'', [''A''])] \<and>
   has_circular_dependency 3 [(''A'', [''B'']), (''B'', [''C'']), (''C'', [''A''])] = None \<and>
   length [(''B'', [''A'']), (''C'', [''A'']), (''D'', [''B'', ''C''])] < (1000::nat) \<and>
   has_circular_dependency 1000 [(''B'', [''A'']), (''C'', [''A'']), (''D'', [''B'', ''C''])]
     = Some False \<and>
   \<not> contains_cycle [(''B'', [''A'']), (''C'', [''A'']), (''D'', [''B'', ''C''])]"
proof -
  have a: "has_circular_dependency 4 [(''A'', [''B'']), (''B'', [''C'']), (''C'', [''A''])] = Some True"
    by (simp add: has_circular_dependency_def visit_pos deps_of_def)
  have a': "has_circular_dependency 3 [(''A'', [''B'']), (''B'', [''C'']), (''C'', [''A''])] = None"
    by (simp add: has_circular_dependency_def visit_pos deps_of_def)
  have b: "has_circular_dependency 1000 [(''B'', [''A'']), (''C'', [''A'']), (''D'', [''B'', ''C''])]
             = Some False"
    by (simp add: has_circular_dependency_def visit_pos deps_of_def)
  show ?thesis
    using a a' b
      has_circular_dependency_correct [of 4 "[(''A'', [''B'']), (''B'', [''C'']), (''C'', [''A''])]"]
      has_circular_dependency_correct [of 1000 "[(''B'', [''A'']), (''C'', [''A'']), (''D'', [''B'', ''C''])]"]
    by simp
qed

section \<open>Evaluation of concrete runs\<close>

lemmas run_eval =
  two_agents_def cyclic_agents_def failed_run_def reused_controller_def reused_store_def
  register_agent_def TriggerController_init_def run_all_def
  has_circular_dependency_def visit_pos deps_of_def check_dependencies_met_def
  execute_agent_start_def execute_agent_resume_def set_phase_def new_task_def
  trigger_dependents_def get_dependents_def except_branch_def key_error_def
  initialize_step_context_def base_step_context_def get_step_context_def
  update_step_context_def update_master_context_def log_context_update_def
  dict_get_def ContextManager_init_def
  run_all_returns_def run_all_raises_def outstanding_def eligible_pending_def
  quiescent_def Let_def

section \<open>The join of run_all\<close>

text \<open>
  C2. \<open>run_all\<close> gathers only the tasks it created itself. With \<open>mid\<close>
  depending on \<open>root\<close>: the task of \<open>root\<close> runs and completes, which
  creates the task of \<open>mid\<close>; that task starts and waits for its callback. At
  this point every gathered task has finished, so \<open>run_all\<close> returns, while
  the task of \<open>mid\<close> is outstanding and the state is not quiescent.
\<close>

theorem run_all_returns_before_dependents:
  "map_option run_all_returns
     (exec [Start 0, Finish 0 (Returned [''output'' \<mapsto> PStr ''R'']), Start 1]
        (the (run_all 1000 two_agents))) = Some True \<and>
   map_option (map task_agent \<circ> outstanding)
     (exec [Start 0, Finish 0 (Returned [''output'' \<mapsto> PStr ''R'']), Start 1]
        (the (run_all 1000 two_agents))) = Some [''mid''] \<and>
   map_option quiescent
     (exec [Start 0, Finish 0 (Returned [''output'' \<mapsto> PStr ''R'']), Start 1]
        (the (run_all 1000 two_agents))) = Some False"
  by (simp add: run_eval)

section \<open>The context given to a callback\<close>

text \<open>
  C3, as stated, fails: a launch does not rebuild the step context when the
  store already has one. In \<open>reused_controller\<close> the master context names the
  new client, and what the table would build from it names the new client, but
  the callback of \<open>scope_agent\<close> is given the stored context with the old one.
\<close>

theorem stale_step_context_counterexample:
  "map fst (calls (execute_agent_start 0 (the (run_all 1000 reused_controller)))) = [''scope_agent''] \<and>
   snd (hd (calls (execute_agent_start 0 (the (run_all 1000 reused_controller))))) ''client_info''
     = Some (PStr ''old client'') \<and>
   base_step_context (context_manager (the (run_all 1000 reused_controller))) ''scope_agent'' ''client_info''
     = Some (PStr ''new client'')"
  by (simp add: run_eval)

text \<open>
  C3, amended. When a task starts its agent with the dependencies met and the
  callback registered, the callback is invoked once, with the step context that
  the store holds for the agent if it holds one, and otherwise with the context
  built at that moment from the master context and the stored outputs by the
  table of \<open>initialize_step_context\<close>.
\<close>

theorem callback_receives_step_context:
  assumes "check_dependencies_met (dependency_graph s) (task_agent (tasks s ! i)) (agent_status s)"
    and "task_agent (tasks s ! i) \<in> set (agent_callbacks s)"
  shows "calls (execute_agent_start i s) =
           calls s @ [(task_agent (tasks s ! i),
             (case step_contexts (context_manager s) (task_agent (tasks s ! i)) of
                None \<Rightarrow> base_step_context (context_manager s) (task_agent (tasks s ! i))
              | Some c \<Rightarrow> c))]"
  using assms
  by (simp add: execute_agent_start_def set_phase_def initialize_step_context_def
      get_step_context_def dict_get_def Let_def split: option.splits)

theorem callback_receives_step_context_witness:
  "calls (execute_agent_start 0 (the (run_all 1000 two_agents))) = [(''root'', Map.empty)]"
proof -
  have a: "check_dependencies_met (dependency_graph (the (run_all 1000 two_agents)))
             (task_agent (tasks (the (run_all 1000 two_agents)) ! 0)) (agent_status (the (run_all 1000 two_agents)))"
    by (simp add: run_eval)
  have b: "task_agent (tasks (the (run_all 1000 two_agents)) ! 0) \<in> set (agent_callbacks (the (run_all 1000 two_agents)))"
    by (simp add: run_eval)
  show ?thesis
    using callback_receives_step_context [OF a b] by (simp add: run_eval)
qed

section \<open>A cycle stops the run\<close>

lemma add_dependency_new:
  "agent \<notin> fst ` set g \<Longrightarrow> add_dependency agent depends_on g = g @ [(agent, [depends_on])]"
  by (induction g) auto

lemma chain_agents_graph: "dependency_graph (chain_agents h n) = map (\<lambda>k. (deep_name k, [h k])) [0..<n]"
proof (induction n)
  case 0
  then show ?case by (simp add: chain_agents_def TriggerController_init_def)
next
  case (Suc n)
  have "deep_name n \<notin> fst ` set (map (\<lambda>k. (deep_name k, [h k])) [0..<n])" by auto
  then show ?case
    using Suc by (simp add: chain_agents_def register_agent_def add_dependency_new)
qed

lemma ring_agents_ring: "dependency_graph (ring_agents n) = ring n"
  by (simp add: ring_agents_def chain_agents_graph ring_def)

text \<open>
  C5, as stated, fails on a graph that is deep: 1200 agents registered in a
  ring make a cycle, and with the 1000 nested calls that the default recursion
  limit allows at most, the cycle check ends with \<open>RecursionError\<close>. Nothing
  catches it in \<open>run_all\<close>, which raises it in turn: no error about the graph
  is logged and no cycle is reported.
\<close>

theorem deep_cycle_not_reported_counterexample:
  "contains_cycle (dependency_graph (ring_agents 1200)) \<and>
   run_all 1000 (ring_agents 1200) = None"
  using contains_cycle_ring[of 1200] has_circular_dependency_ring_raises[of 1200 1000]
  by (simp add: ring_agents_ring run_all_def)

text \<open>
  C5, amended. If the dependency graph contains a cycle, \<open>run_all\<close> creates no
  task, invokes no callback and leaves every status as it was. Either it logs
  the error about the graph and returns, the state differing from the one before
  by the logged message alone, or the cycle check exceeds the recursion limit
  and \<open>run_all\<close> raises \<open>RecursionError\<close> with nothing logged. It logs and
  returns whenever the graph has fewer agents with dependencies than \<open>limit\<close>,
  the number of nested calls the interpreter still allows.
\<close>

theorem run_all_aborts_on_cycle:
  assumes "contains_cycle (dependency_graph s)"
  shows "(run_all limit s = None \<or>
          run_all limit s = Some (s\<lparr>errors_logged := errors_logged s @
                         [''Circular dependency detected. Cannot execute agents.'']\<rparr>)) \<and>
         (length (dependency_graph s) < limit \<longrightarrow>
          run_all limit s = Some (s\<lparr>errors_logged := errors_logged s @
                         [''Circular dependency detected. Cannot execute agents.'']\<rparr>))"
proof -
  have a: "has_circular_dependency limit (dependency_graph s) = Some b \<Longrightarrow> b" for b
    using has_circular_dependency_sound[of limit "dependency_graph s" b] assms by simp
  have b: "length (dependency_graph s) < limit \<Longrightarrow>
           has_circular_dependency limit (dependency_graph s) = Some True"
    using has_circular_dependency_enough[of "dependency_graph s" limit] assms by simp
  show ?thesis
  proof (cases "has_circular_dependency limit (dependency_graph s)")
    case None
    then show ?thesis using b by (auto simp: run_all_def)
  next
    case (Some c)
    then show ?thesis using a[OF Some] by (simp add: run_all_def)
  qed
qed

theorem run_all_aborts_on_cycle_witness:
  "contains_cycle (dependency_graph cyclic_agents) \<and>
   length (dependency_graph cyclic_agents) < (1000::nat) \<and>
   map_option tasks (run_all 1000 cyclic_agents) = Some [] \<and>
   map_option calls (run_all 1000 cyclic_agents) = Some [] \<and>
   map_option (\<lambda>s. map_option state (agent_status s ''A'')) (run_all 1000 cyclic_agents)
     = Some (Some ''pending'') \<and>
   map_option errors_logged (run_all 1000 cyclic_agents) =
     Some [''Circular dependency detected. Cannot execute agents.'']"
proof -
  have "has_circular_dependency 1000 (dependency_graph cyclic_agents) = Some True"
    by (simp add: run_eval)
  then have c: "contains_cycle (dependency_graph cyclic_agents)"
    using has_circular_dependency_sound by blast
  have l: "length (dependency_graph cyclic_agents) < (1000::nat)"
    by (simp add: cyclic_agents_def register_agent_def TriggerController_init_def)
  show ?thesis
    using c l run_all_aborts_on_cycle [OF c, of 1000]
    by (simp add: cyclic_agents_def register_agent_def TriggerController_init_def)
qed

section \<open>Recovery\<close>

text \<open>
  C9. Recovery from a recovery point taken in a state \<open>s0\<close> gives, in
  whatever state \<open>s\<close> the run has reached, the master context and the step
  contexts of \<open>s0\<close>, and a status for exactly the agents that had one, each
  with state pending and neither output nor error.
\<close>

theorem recover_restores_snapshot:
  "master_context (context_manager (recover_from_error (create_recovery_point s0) s))
     = master_context (context_manager s0) \<and>
   step_contexts (context_manager (recover_from_error (create_recovery_point s0) s))
     = step_contexts (context_manager s0) \<and>
   dom (agent_status (recover_from_error (create_recovery_point s0) s)) = dom (agent_status s) \<and>
   (\<forall>agent_id st.
      agent_status (recover_from_error (create_recovery_point s0) s) agent_id = Some st \<longrightarrow>
      state st = ''pending'' \<and> output st = None \<and> error st = None)"
  by (auto simp: recover_from_error_def create_recovery_point_def dom_def)

theorem recover_restores_snapshot_witness:
  "map_option state (agent_status failed_run ''root'') = Some ''failed'' \<and>
   step_contexts (context_manager failed_run) ''root'' = Some Map.empty \<and>
   step_contexts (context_manager
     (recover_from_error (create_recovery_point two_agents) failed_run)) ''root'' = None \<and>
   map_option state
     (agent_status (recover_from_error (create_recovery_point two_agents) failed_run) ''root'')
     = Some ''pending'' \<and>
   map_option error
     (agent_status (recover_from_error (create_recovery_point two_agents) failed_run) ''root'')
     = Some None"
  using recover_restores_snapshot [of two_agents failed_run]
  by (simp add: run_eval recover_from_error_def create_recovery_point_def)

section \<open>The invariant of a run\<close>

lemma deps_met_completed:
  "check_dependencies_met g d sts \<Longrightarrow> a \<in> set (deps_of g d) \<Longrightarrow> terminal sts a"
  by (auto simp: check_dependencies_met_def terminal_def list_all_iff split: option.splits)

lemma deps_met_upd:
  "check_dependencies_met g d sts \<Longrightarrow> \<not> terminal sts a \<Longrightarrow>
   check_dependencies_met g d (sts(a \<mapsto> st'))"
  by (auto simp: check_dependencies_met_def terminal_def list_all_iff split: option.splits)

lemma get_dependents_deps:
  "distinct (map fst g) \<Longrightarrow> d \<in> set (get_dependents g a) \<Longrightarrow> a \<in> set (deps_of g d)"
  by (auto simp: get_dependents_def deps_of_def)

lemma distinct_get_dependents:
  "distinct (map fst g) \<Longrightarrow> distinct (get_dependents g a)"
  by (simp add: get_dependents_def distinct_map_filter)

lemma task_agent_upd [simp]:
  "map task_agent (ts[i := (ts ! i)\<lparr>task_phase := p\<rparr>]) = map task_agent ts"
  by (induction ts arbitrary: i) (auto split: nat.splits)

lemma in_set_upd_phase:
  assumes "t \<in> set (ts[i := (ts ! i)\<lparr>task_phase := p\<rparr>])" "i < length ts"
    "distinct (map task_agent ts)"
  shows "(t = (ts ! i)\<lparr>task_phase := p\<rparr>) \<or> (t \<in> set ts \<and> task_agent t \<noteq> task_agent (ts ! i))"
proof -
  from assms(1) obtain j where j: "j < length ts" "t = (ts[i := (ts ! i)\<lparr>task_phase := p\<rparr>]) ! j"
    by (auto simp: in_set_conv_nth)
  show ?thesis
  proof (cases "j = i")
    case True
    then show ?thesis using j assms(2) by simp
  next
    case False
    then have t: "t = ts ! j" using j by simp
    have "task_agent (ts ! j) \<noteq> task_agent (ts ! i)"
      using assms(2,3) j(1) False by (auto simp: distinct_conv_nth)
    then show ?thesis using t j(1) by auto
  qed
qed

lemma mem_upd_other:
  "t \<in> set ts \<Longrightarrow> t \<noteq> ts ! i \<Longrightarrow> t \<in> set (ts[i := x])"
  by (metis in_set_conv_nth length_list_update nth_list_update_neq)

lemma task_of_agent_upd:
  assumes "t \<in> set ts" "task_agent t = a" "task_phase t \<noteq> Scheduled" "i < length ts"
    "p \<noteq> Scheduled \<or> t \<noteq> ts ! i"
  shows "\<exists>t' \<in> set (ts[i := (ts ! i)\<lparr>task_phase := p\<rparr>]). task_agent t' = a \<and> task_phase t' \<noteq> Scheduled"
proof (cases "t = ts ! i")
  case True
  have "(ts ! i)\<lparr>task_phase := p\<rparr> \<in> set (ts[i := (ts ! i)\<lparr>task_phase := p\<rparr>])"
    using assms(4) by (rule set_update_memI)
  moreover have "task_agent ((ts ! i)\<lparr>task_phase := p\<rparr>) = a" using True assms(2) by simp
  moreover have "task_phase ((ts ! i)\<lparr>task_phase := p\<rparr>) \<noteq> Scheduled" using True assms(5) by simp
  ultimately show ?thesis by blast
next
  case False
  have "t \<in> set (ts[i := (ts ! i)\<lparr>task_phase := p\<rparr>])"
    using mem_upd_other[OF assms(1) False] .
  then show ?thesis using assms(2,3) by blast
qed

lemma inv_phase_step:
  assumes inv: "run_inv s" and i: "i < length (tasks s)" and act: "active (tasks s ! i)"
    and p: "p \<noteq> Scheduled"
    and g: "dependency_graph s' = dependency_graph s"
    and sts: "agent_status s' = agent_status s"
    and ts: "tasks s' = (tasks s)[i := (tasks s ! i)\<lparr>task_phase := p\<rparr>]"
    and cs: "calls s' = calls s \<or>
             (task_phase (tasks s ! i) = Scheduled \<and>
              (\<exists>c. calls s' = calls s @ [(task_agent (tasks s ! i), c)]))"
  shows "run_inv s'"
proof -
  let ?ts = "tasks s" and ?x = "(tasks s ! i)\<lparr>task_phase := p\<rparr>"
  have d: "distinct (map task_agent ?ts)" using inv by (simp add: run_inv_def)
  have mem: "\<And>t. t \<in> set (tasks s') \<Longrightarrow> t = ?x \<or> (t \<in> set ?ts \<and> task_agent t \<noteq> task_agent (?ts ! i))"
    unfolding ts using in_set_upd_phase[OF _ i d] by blast
  have ti: "?ts ! i \<in> set ?ts" using i by simp
  have agents: "task_agent ` set (tasks s') = task_agent ` set ?ts"
    using task_agent_upd[of ?ts i p] unfolding ts by (metis set_map)
  have 1: "distinct (map fst (dependency_graph s'))" using inv g by (simp add: run_inv_def)
  have 2: "distinct (map task_agent (tasks s'))" using d by (simp add: ts)
  have 3: "\<forall>t \<in> set (tasks s'). active t \<longrightarrow> \<not> terminal (agent_status s') (task_agent t)"
  proof (intro ballI impI)
    fix t assume t: "t \<in> set (tasks s')" and a: "active t"
    from mem[OF t] show "\<not> terminal (agent_status s') (task_agent t)"
    proof
      assume "t = ?x"
      then show ?thesis using inv ti act by (simp add: run_inv_def sts)
    next
      assume "t \<in> set ?ts \<and> task_agent t \<noteq> task_agent (?ts ! i)"
      then show ?thesis using inv a by (simp add: run_inv_def sts)
    qed
  qed
  have 4: "\<forall>t \<in> set (tasks s').
             check_dependencies_met (dependency_graph s') (task_agent t) (agent_status s')"
  proof
    fix t assume t: "t \<in> set (tasks s')"
    from mem[OF t] show "check_dependencies_met (dependency_graph s') (task_agent t) (agent_status s')"
      using inv ti by (auto simp: run_inv_def sts g)
  qed
  have 5: "\<forall>a st. agent_status s' a = Some st \<longrightarrow> state st \<noteq> ''pending'' \<longrightarrow>
             a \<in> task_agent ` set (tasks s') \<and> terminal (agent_status s') a"
    using inv unfolding agents sts by (simp add: run_inv_def)
  have old: "\<forall>a \<in> set (map fst (calls s)).
               \<exists>t \<in> set (tasks s'). task_agent t = a \<and> task_phase t \<noteq> Scheduled"
  proof
    fix a assume "a \<in> set (map fst (calls s))"
    then obtain t where "t \<in> set ?ts" "task_agent t = a" "task_phase t \<noteq> Scheduled"
      using inv unfolding run_inv_def by blast
    then show "\<exists>t \<in> set (tasks s'). task_agent t = a \<and> task_phase t \<noteq> Scheduled"
      unfolding ts using task_of_agent_upd[OF _ _ _ i] p by blast
  qed
  have 67: "distinct (map fst (calls s')) \<and>
            (\<forall>a \<in> set (map fst (calls s')).
               \<exists>t \<in> set (tasks s'). task_agent t = a \<and> task_phase t \<noteq> Scheduled)"
    using cs
  proof
    assume "calls s' = calls s"
    then show ?thesis using inv old by (simp add: run_inv_def)
  next
    assume c: "task_phase (tasks s ! i) = Scheduled \<and>
               (\<exists>c. calls s' = calls s @ [(task_agent (tasks s ! i), c)])"
    then obtain c' where c': "calls s' = calls s @ [(task_agent (?ts ! i), c')]" by blast
    have notin: "task_agent (?ts ! i) \<notin> set (map fst (calls s))"
    proof
      assume "task_agent (?ts ! i) \<in> set (map fst (calls s))"
      then obtain t where t: "t \<in> set ?ts" "task_agent t = task_agent (?ts ! i)"
        "task_phase t \<noteq> Scheduled"
        using inv unfolding run_inv_def by blast
      have "t = ?ts ! i" using t(1,2) ti d by (meson distinct_map inj_onD)
      then show False using t(3) c by simp
    qed
    have "?x \<in> set (tasks s')" unfolding ts using i by (rule set_update_memI)
    then have "\<exists>t \<in> set (tasks s'). task_agent t = task_agent (?ts ! i) \<and> task_phase t \<noteq> Scheduled"
      using p by (intro bexI[of _ ?x]) auto
    then show ?thesis using inv old notin unfolding c' by (auto simp: run_inv_def)
  qed
  show ?thesis unfolding run_inv_def using 1 2 3 4 5 67 by blast
qed

lemma map_task_agent_new [simp]: "map task_agent (map (new_task b) ds) = ds"
  by (induction ds) (auto simp: new_task_def)

lemma inv_finish_step:
  assumes inv: "run_inv s" and i: "i < length (tasks s)" and act: "active (tasks s ! i)"
    and p: "p \<noteq> Scheduled" "p \<noteq> Awaiting"
    and g: "dependency_graph s' = dependency_graph s"
    and st': "state st' = ''completed'' \<or> state st' = ''failed''"
    and sts: "agent_status s' = (agent_status s)(task_agent (tasks s ! i) \<mapsto> st')"
    and ts: "tasks s' = (tasks s)[i := (tasks s ! i)\<lparr>task_phase := p\<rparr>] @ map (new_task False) new"
    and new: "new = [] \<or>
              new = filter (\<lambda>d. check_dependencies_met (dependency_graph s) d (agent_status s'))
                      (get_dependents (dependency_graph s) (task_agent (tasks s ! i)))"
    and cs: "calls s' = calls s"
  shows "run_inv s'"
proof -
  let ?ts = "tasks s" and ?x = "(tasks s ! i)\<lparr>task_phase := p\<rparr>" and ?g = "dependency_graph s"
  let ?a = "task_agent (tasks s ! i)"
  let ?ts1 = "?ts[i := ?x]"
  have dg: "distinct (map fst ?g)" using inv by (simp add: run_inv_def)
  have d: "distinct (map task_agent ?ts)" using inv by (simp add: run_inv_def)
  have ti: "?ts ! i \<in> set ?ts" using i by simp
  have na: "\<not> terminal (agent_status s) ?a" using inv ti act by (simp add: run_inv_def)
  have ta: "terminal (agent_status s') ?a" using st' by (simp add: terminal_def sts)
  have other: "\<And>b. b \<noteq> ?a \<Longrightarrow> agent_status s' b = agent_status s b" by (simp add: sts)
  have term_other: "\<And>b. b \<noteq> ?a \<Longrightarrow> terminal (agent_status s') b = terminal (agent_status s) b"
    by (simp add: terminal_def other)
  have newsub: "\<forall>d \<in> set new. d \<in> set (get_dependents ?g ?a) \<and>
                  check_dependencies_met ?g d (agent_status s')"
    using new by auto
  have dnew: "distinct new" using new distinct_get_dependents[OF dg] by auto
  have agents1: "map task_agent ?ts1 = map task_agent ?ts" by simp
  have N1: "\<forall>d \<in> set new. d \<notin> task_agent ` set ?ts"
  proof (intro ballI notI)
    fix d assume dn: "d \<in> set new" and "d \<in> task_agent ` set ?ts"
    then obtain t where t: "t \<in> set ?ts" "task_agent t = d" by auto
    then have "check_dependencies_met ?g d (agent_status s)" using inv by (auto simp: run_inv_def)
    moreover have "?a \<in> set (deps_of ?g d)" using newsub dn get_dependents_deps[OF dg] by blast
    ultimately show False using deps_met_completed na by blast
  qed
  have mem: "\<And>t. t \<in> set (tasks s') \<Longrightarrow>
               t = ?x \<or> (t \<in> set ?ts \<and> task_agent t \<noteq> ?a) \<or> (\<exists>d \<in> set new. t = new_task False d)"
    unfolding ts using in_set_upd_phase[OF _ i d] by auto
  have 1: "distinct (map fst (dependency_graph s'))" using dg g by simp
  have agents': "map task_agent (tasks s') = map task_agent ?ts @ new"
    by (simp only: ts map_append agents1 map_task_agent_new)
  have 2: "distinct (map task_agent (tasks s'))"
    unfolding agents' using d dnew N1 by auto
  have 3: "\<forall>t \<in> set (tasks s'). active t \<longrightarrow> \<not> terminal (agent_status s') (task_agent t)"
  proof (intro ballI impI)
    fix t assume t: "t \<in> set (tasks s')" and a: "active t"
    from mem[OF t] show "\<not> terminal (agent_status s') (task_agent t)"
    proof (elim disjE conjE bexE)
      assume "t = ?x"
      then show ?thesis using a p by (simp add: active_def)
    next
      assume "t \<in> set ?ts" "task_agent t \<noteq> ?a"
      then show ?thesis using inv a term_other by (simp add: run_inv_def)
    next
      fix dd assume dd: "dd \<in> set new" "t = new_task False dd"
      have nota: "dd \<noteq> ?a" using N1 dd(1) ti by auto
      have "\<not> terminal (agent_status s) dd"
      proof
        assume "terminal (agent_status s) dd"
        then have "dd \<in> task_agent ` set ?ts"
          using inv unfolding run_inv_def terminal_def by fastforce
        then show False using N1 dd(1) by blast
      qed
      then show ?thesis using term_other[OF nota] dd(2) by (simp add: new_task_def)
    qed
  qed
  have 4: "\<forall>t \<in> set (tasks s').
             check_dependencies_met (dependency_graph s') (task_agent t) (agent_status s')"
  proof
    fix t assume t: "t \<in> set (tasks s')"
    have old: "\<And>u. u \<in> set ?ts \<Longrightarrow> check_dependencies_met ?g (task_agent u) (agent_status s')"
      unfolding sts using inv na by (intro deps_met_upd) (auto simp: run_inv_def)
    from mem[OF t] show "check_dependencies_met (dependency_graph s') (task_agent t) (agent_status s')"
    proof (elim disjE conjE bexE)
      assume "t = ?x"
      then show ?thesis using old[OF ti] by (simp add: g)
    next
      assume "t \<in> set ?ts" "task_agent t \<noteq> ?a"
      then show ?thesis using old by (simp add: g)
    next
      fix dd assume dd: "dd \<in> set new" "t = new_task False dd"
      then show ?thesis using newsub by (simp add: g new_task_def)
    qed
  qed
  have sub: "task_agent ` set ?ts \<subseteq> task_agent ` set (tasks s')"
  proof -
    have "task_agent ` set (tasks s') = set (map task_agent ?ts @ new)"
      using agents' by (metis set_map)
    then show ?thesis by auto
  qed
  have 5: "\<forall>b st. agent_status s' b = Some st \<longrightarrow> state st \<noteq> ''pending'' \<longrightarrow>
             b \<in> task_agent ` set (tasks s') \<and> terminal (agent_status s') b"
  proof (intro allI impI)
    fix b stb assume b: "agent_status s' b = Some stb" "state stb \<noteq> ''pending''"
    show "b \<in> task_agent ` set (tasks s') \<and> terminal (agent_status s') b"
    proof (cases "b = ?a")
      case True
      then show ?thesis using ta ti sub by auto
    next
      case False
      then have "b \<in> task_agent ` set ?ts \<and> terminal (agent_status s) b"
        using inv b other[OF False] unfolding run_inv_def by metis
      then show ?thesis using sub term_other[OF False] by auto
    qed
  qed
  have 67: "distinct (map fst (calls s')) \<and>
            (\<forall>a \<in> set (map fst (calls s')).
               \<exists>t \<in> set (tasks s'). task_agent t = a \<and> task_phase t \<noteq> Scheduled)"
  proof (intro conjI ballI)
    show "distinct (map fst (calls s'))" using inv by (simp add: cs run_inv_def)
  next
    fix a assume "a \<in> set (map fst (calls s'))"
    then obtain t where "t \<in> set ?ts" "task_agent t = a" "task_phase t \<noteq> Scheduled"
      using inv unfolding run_inv_def cs by blast
    then have "\<exists>t' \<in> set ?ts1. task_agent t' = a \<and> task_phase t' \<noteq> Scheduled"
      using task_of_agent_upd[OF _ _ _ i] p(1) by blast
    then show "\<exists>t \<in> set (tasks s'). task_agent t = a \<and> task_phase t \<noteq> Scheduled"
      unfolding ts by auto
  qed
  show ?thesis unfolding run_inv_def using 1 2 3 4 5 67 by blast
qed

lemma run_inv_cong:
  "dependency_graph s1 = dependency_graph s \<Longrightarrow> tasks s1 = tasks s \<Longrightarrow>
   agent_status s1 = agent_status s \<Longrightarrow> calls s1 = calls s \<Longrightarrow> run_inv s1 = run_inv s"
  by (simp add: run_inv_def)

lemma set_phase_fields [simp]:
  "tasks (set_phase i p s) = (tasks s)[i := (tasks s ! i)\<lparr>task_phase := p\<rparr>]"
  "dependency_graph (set_phase i p s) = dependency_graph s"
  "agent_status (set_phase i p s) = agent_status s"
  "calls (set_phase i p s) = calls s"
  "agent_callbacks (set_phase i p s) = agent_callbacks s"
  "context_manager (set_phase i p s) = context_manager s"
  "errors_logged (set_phase i p s) = errors_logged s"
  by (simp_all add: set_phase_def)

lemma except_branch_inv:
  assumes inv: "run_inv s" and i: "i < length (tasks s)" and act: "active (tasks s ! i)"
  shows "run_inv (except_branch i (task_agent (tasks s ! i)) msg s)"
proof (cases "agent_status s (task_agent (tasks s ! i))")
  case None
  then have e: "except_branch i (task_agent (tasks s ! i)) msg s = set_phase i Crashed s"
    by (simp add: except_branch_def)
  show ?thesis unfolding e
    by (rule inv_phase_step[OF inv i act, where p = Crashed]) simp_all
next
  case (Some st)
  let ?s2 = "s\<lparr>agent_status := (agent_status s)(task_agent (tasks s ! i) \<mapsto>
                 st\<lparr>state := ''failed'', error := Some msg\<rparr>),
               errors_logged := errors_logged s @
                 [''Agent '' @ task_agent (tasks s ! i) @ '' failed with error: '' @ msg]\<rparr>"
  have e: "except_branch i (task_agent (tasks s ! i)) msg s = set_phase i Done ?s2"
    using Some by (simp add: except_branch_def)
  show ?thesis unfolding e
    by (rule inv_finish_step[OF inv i act, where p = Done and new = "[]"
          and st' = "st\<lparr>state := ''failed'', error := Some msg\<rparr>"]) simp_all
qed

lemma execute_agent_start_inv:
  assumes inv: "run_inv s" and i: "i < length (tasks s)" and sch: "task_phase (tasks s ! i) = Scheduled"
  shows "run_inv (execute_agent_start i s)"
proof -
  let ?a = "task_agent (tasks s ! i)"
  let ?s1 = "s\<lparr>context_manager := initialize_step_context ?a (context_manager s)\<rparr>"
  have act: "active (tasks s ! i)" using sch by (simp add: active_def)
  have inv1: "run_inv ?s1" using inv by (simp add: run_inv_cong[of ?s1 s])
  show ?thesis
  proof (cases "check_dependencies_met (dependency_graph s) ?a (agent_status s)")
    case False
    then have e: "execute_agent_start i s = set_phase i Done s"
      by (simp add: execute_agent_start_def)
    show ?thesis unfolding e by (rule inv_phase_step[OF inv i act, where p = Done]) simp_all
  next
    case True
    show ?thesis
    proof (cases "?a \<in> set (agent_callbacks s)")
      case c: True
      have e: "execute_agent_start i s =
                 set_phase i Awaiting
                   (?s1\<lparr>calls := calls ?s1 @ [(?a, get_step_context (context_manager ?s1) ?a)]\<rparr>)"
        using True c by (simp add: execute_agent_start_def Let_def)
      show ?thesis unfolding e
        by (rule inv_phase_step[OF inv i act, where p = Awaiting]) (simp_all add: sch)
    next
      case c: False
      have e: "execute_agent_start i s = except_branch i (task_agent (tasks ?s1 ! i)) (key_error ?a) ?s1"
        using True c by (simp add: execute_agent_start_def Let_def)
      show ?thesis unfolding e
        by (rule except_branch_inv[OF inv1]) (use i act in simp_all)
    qed
  qed
qed

lemma execute_agent_resume_inv:
  assumes inv: "run_inv s" and i: "i < length (tasks s)" and aw: "task_phase (tasks s ! i) = Awaiting"
  shows "run_inv (execute_agent_resume i r s)"
proof -
  let ?a = "task_agent (tasks s ! i)"
  have act: "active (tasks s ! i)" using aw by (simp add: active_def)
  show ?thesis
  proof (cases r)
    case (Raised msg)
    then have e: "execute_agent_resume i r s = except_branch i ?a msg s"
      by (simp add: execute_agent_resume_def)
    show ?thesis unfolding e by (rule except_branch_inv[OF inv i act])
  next
    case (Returned out)
    show ?thesis
    proof (cases "out ''output''")
      case None
      then have e: "execute_agent_resume i r s = except_branch i ?a (key_error ''output'') s"
        using Returned by (simp add: execute_agent_resume_def)
      show ?thesis unfolding e by (rule except_branch_inv[OF inv i act])
    next
      case (Some v)
      let ?s1 = "s\<lparr>context_manager :=
                    update_step_context ?a [''output'' \<mapsto> v] (context_manager s)\<rparr>"
      have inv1: "run_inv ?s1" using inv by (simp add: run_inv_cong[of ?s1 s])
      show ?thesis
      proof (cases "agent_status s ?a")
        case n: None
        have e: "execute_agent_resume i r s = except_branch i (task_agent (tasks ?s1 ! i)) (key_error ?a) ?s1"
          using Returned Some n by (simp add: execute_agent_resume_def Let_def)
        show ?thesis unfolding e
          by (rule except_branch_inv[OF inv1]) (use i act in simp_all)
      next
        case st: (Some st)
        let ?st' = "st\<lparr>state := ''completed'', output := Some v\<rparr>"
        let ?s2 = "?s1\<lparr>agent_status := (agent_status ?s1)(?a \<mapsto> ?st')\<rparr>"
        have e: "execute_agent_resume i r s = set_phase i Done (trigger_dependents ?a ?s2)"
          using Returned Some st by (simp add: execute_agent_resume_def Let_def)
        let ?new = "filter (\<lambda>d. check_dependencies_met (dependency_graph s) d
                               ((agent_status s)(?a \<mapsto> ?st')))
                      (get_dependents (dependency_graph s) ?a)"
        have t: "tasks (set_phase i Done (trigger_dependents ?a ?s2)) =
                   (tasks s)[i := (tasks s ! i)\<lparr>task_phase := Done\<rparr>] @ map (new_task False) ?new"
          using i by (simp add: trigger_dependents_def list_update_append1 nth_append)
        show ?thesis unfolding e
          by (rule inv_finish_step[OF inv i act _ _ _ _ _ t, where st' = ?st'])
            (simp_all add: trigger_dependents_def)
      qed
    qed
  qed
qed

lemma step_inv: "run_inv s \<Longrightarrow> step e s = Some s' \<Longrightarrow> run_inv s'"
  by (cases e) (auto simp: execute_agent_start_inv execute_agent_resume_inv split: if_splits)

lemma exec_inv: "run_inv s \<Longrightarrow> exec evs s = Some s' \<Longrightarrow> run_inv s'"
proof (induction evs arbitrary: s)
  case Nil
  then show ?case by simp
next
  case (Cons e evs)
  then show ?case by (auto split: option.splits dest: step_inv)
qed

lemma run_all_inv: "fresh s \<Longrightarrow> run_all limit s = Some s0 \<Longrightarrow> run_inv s0"
  by (auto simp: fresh_def run_all_def run_inv_def terminal_def distinct_map_filter
      new_task_def comp_def split: option.splits if_splits)

lemma except_branch_fields:
  "dependency_graph (except_branch i a msg s) = dependency_graph s"
  "calls (except_branch i a msg s) = calls s"
  "b \<noteq> a \<Longrightarrow> agent_status (except_branch i a msg s) b = agent_status s b"
  by (simp_all add: except_branch_def split: option.splits)

lemma execute_agent_start_fields:
  "dependency_graph (execute_agent_start i s) = dependency_graph s"
  "b \<noteq> task_agent (tasks s ! i) \<Longrightarrow> agent_status (execute_agent_start i s) b = agent_status s b"
  by (simp_all add: execute_agent_start_def except_branch_fields Let_def)

lemma execute_agent_resume_fields:
  "dependency_graph (execute_agent_resume i r s) = dependency_graph s"
  "b \<noteq> task_agent (tasks s ! i) \<Longrightarrow> agent_status (execute_agent_resume i r s) b = agent_status s b"
  by (simp_all add: execute_agent_resume_def except_branch_fields trigger_dependents_def Let_def
      split: callback_result.splits option.splits)

lemma step_fields:
  assumes "step e s = Some s'"
  shows "dependency_graph s' = dependency_graph s"
    and "\<exists>i. i < length (tasks s) \<and> active (tasks s ! i) \<and>
           (\<forall>b. b \<noteq> task_agent (tasks s ! i) \<longrightarrow> agent_status s' b = agent_status s b)"
  using assms
  by (cases e; auto simp: execute_agent_start_fields execute_agent_resume_fields active_def
      split: if_splits)+

lemma step_terminal_kept:
  assumes "run_inv s" "step e s = Some s'" "terminal (agent_status s) a"
  shows "agent_status s' a = agent_status s a"
proof -
  from step_fields(2)[OF assms(2)] obtain i where
    i: "i < length (tasks s)" "active (tasks s ! i)"
    "\<forall>b. b \<noteq> task_agent (tasks s ! i) \<longrightarrow> agent_status s' b = agent_status s b" by blast
  have "tasks s ! i \<in> set (tasks s)" using i(1) by simp
  then have "\<not> terminal (agent_status s) (task_agent (tasks s ! i))"
    using assms(1) i(2) by (simp add: run_inv_def)
  then have "a \<noteq> task_agent (tasks s ! i)" using assms(3) by auto
  then show ?thesis using i(3) by simp
qed

lemma exec_terminal_kept:
  "run_inv s \<Longrightarrow> exec evs s = Some s' \<Longrightarrow> terminal (agent_status s) a \<Longrightarrow>
   agent_status s' a = agent_status s a"
proof (induction evs arbitrary: s)
  case Nil
  then show ?case by simp
next
  case (Cons e evs)
  from Cons.prems(2) obtain s1 where s1: "step e s = Some s1" "exec evs s1 = Some s'"
    by (auto split: option.splits)
  have k: "agent_status s1 a = agent_status s a" by (rule step_terminal_kept[OF Cons.prems(1) s1(1) Cons.prems(3)])
  then have "terminal (agent_status s1) a" using Cons.prems(3) by (simp add: terminal_def)
  then show ?case using Cons.IH[OF step_inv[OF Cons.prems(1) s1(1)] s1(2)] k by simp
qed


lemmas run_eval2 = run_eval used_controller_def state_after_def invoked_after_def

section \<open>At most one launch\<close>

text \<open>
  C1, as stated, fails: nothing records which agents a run has launched. In a
  second run on a controller whose agents are still completed from the first,
  \<open>run_all\<close> creates a task for \<open>mid\<close> at once, its dependency being
  completed already, and the completion of \<open>root\<close> creates another one: the
  callback of \<open>mid\<close> is invoked twice in this run.
\<close>

theorem second_run_invokes_twice_counterexample:
  "state_after [] used_controller ''root'' = Some ''completed'' \<and>
   state_after [] used_controller ''mid'' = Some ''completed'' \<and>
   invoked_after
     [Start 0, Start 1, Finish 0 (Returned [''output'' \<mapsto> PStr ''R'']), Start 2]
     (the (run_all 1000 used_controller)) = Some [''root'', ''mid'', ''mid'']"
  by (simp add: run_eval2)

text \<open>
  C1, amended. In a run of \<open>run_all\<close> that starts from a fresh controller,
  with every registered agent pending, whatever the order in which the event
  loop runs the tasks and whatever the callbacks return or raise, no agent gets
  a second task and no callback is invoked twice. (When the cycle check ends
  with \<open>RecursionError\<close> there is no run.)
\<close>

theorem callback_invoked_at_most_once:
  assumes "fresh s" and "run_all limit s = Some s0" and "exec evs s0 = Some s'"
  shows "distinct (map fst (calls s')) \<and> distinct (map task_agent (tasks s'))"
  using exec_inv[OF run_all_inv[OF assms(1,2)] assms(3)] by (simp add: run_inv_def)

theorem callback_invoked_at_most_once_witness:
  "fresh two_agents \<and>
   invoked_after
     [Start 0, Finish 0 (Returned [''output'' \<mapsto> PStr ''R'']), Start 1,
      Finish 1 (Returned [''output'' \<mapsto> PStr ''M''])]
     (the (run_all 1000 two_agents)) = Some [''root'', ''mid''] \<and>
   distinct [''root'', ''mid'']"
proof -
  let ?evs = "[Start 0, Finish 0 (Returned [''output'' \<mapsto> PStr ''R'']), Start 1,
      Finish 1 (Returned [''output'' \<mapsto> PStr ''M''])]"
  have f: "fresh two_agents" by (simp add: fresh_def run_eval)
  have r: "run_all 1000 two_agents = Some (the (run_all 1000 two_agents))"
    by (simp add: run_eval)
  obtain s' where e: "exec ?evs (the (run_all 1000 two_agents)) = Some s'"
    by (cases "exec ?evs (the (run_all 1000 two_agents))") (simp_all add: run_eval)
  have c: "invoked_after ?evs (the (run_all 1000 two_agents)) = Some [''root'', ''mid'']"
    by (simp add: run_eval invoked_after_def)
  from callback_invoked_at_most_once[OF f r e] show ?thesis
    using f c by simp
qed

section \<open>Terminal states\<close>

text \<open>
  C8, as stated, fails: \<open>execute_agent\<close> never looks at the state of the agent
  it runs. In a second run on the used controller \<open>root\<close> is completed when the
  run starts and failed after its callback has raised.
\<close>

theorem second_run_leaves_terminal_counterexample:
  "state_after [] (the (run_all 1000 used_controller)) ''root'' = Some ''completed'' \<and>
   state_after [Start 0, Finish 0 (Raised ''boom'')] (the (run_all 1000 used_controller)) ''root''
     = Some ''failed''"
  by (simp add: run_eval2)

text \<open>
  C8, amended. In a run that starts from a fresh controller (every status
  pending, no task of an earlier run left in the event loop, no invocation
  recorded), once the status of an agent is completed or failed, no later step
  of the scheduler changes that status; recovery resets it to pending with
  neither output nor error. In the run of \<open>two_agents\<close>, \<open>root\<close> stays
  completed while \<open>mid\<close> starts and fails.
\<close>

theorem terminal_state_is_final:
  assumes "fresh s" and "run_all limit s = Some s0" and "exec evs s0 = Some s1"
    and "exec evs' s1 = Some s2"
    and "agent_status s1 a = Some st" and "state st = ''completed'' \<or> state st = ''failed''"
  shows "agent_status s2 a = Some st \<and>
         agent_status (recover_from_error rp s2) a =
           Some (st\<lparr>state := ''pending'', output := None, error := None\<rparr>)"
proof -
  have inv1: "run_inv s1" by (rule exec_inv[OF run_all_inv[OF assms(1,2)] assms(3)])
  have "terminal (agent_status s1) a" using assms(5,6) by (simp add: terminal_def)
  then have "agent_status s2 a = Some st"
    using exec_terminal_kept[OF inv1 assms(4)] assms(5) by simp
  then show ?thesis by (simp add: recover_from_error_def)
qed

theorem terminal_state_is_final_witness:
  "fresh two_agents \<and>
   state_after [Start 0, Finish 0 (Returned [''output'' \<mapsto> PStr ''R''])]
     (the (run_all 1000 two_agents)) ''root'' = Some ''completed'' \<and>
   state_after [Start 1, Finish 1 (Raised ''boom'')]
     (the (exec [Start 0, Finish 0 (Returned [''output'' \<mapsto> PStr ''R''])]
        (the (run_all 1000 two_agents)))) ''mid'' = Some ''failed'' \<and>
   state_after [Start 1, Finish 1 (Raised ''boom'')]
     (the (exec [Start 0, Finish 0 (Returned [''output'' \<mapsto> PStr ''R''])]
        (the (run_all 1000 two_agents)))) ''root'' = Some ''completed''"
proof -
  let ?evs = "[Start 0, Finish 0 (Returned [''output'' \<mapsto> PStr ''R''])]"
  let ?evs' = "[Start 1, Finish 1 (Raised ''boom'')]"
  let ?s0 = "the (run_all 1000 two_agents)"
  define s1 where "s1 = the (exec ?evs ?s0)"
  have f: "fresh two_agents" by (simp add: fresh_def run_eval)
  have r: "run_all 1000 two_agents = Some ?s0" by (simp add: run_eval)
  have e: "exec ?evs ?s0 = Some s1" by (simp add: s1_def run_eval)
  obtain s2 where e2: "exec ?evs' s1 = Some s2"
    by (cases "exec ?evs' s1") (simp_all add: s1_def run_eval)
  have sa: "state_after ?evs ?s0 ''root'' = Some ''completed''"
    by (simp add: run_eval state_after_def)
  have "map_option state (agent_status s1 ''root'') = Some ''completed''"
    by (simp add: s1_def run_eval)
  then obtain st where st: "agent_status s1 ''root'' = Some st" "state st = ''completed''"
    by blast
  have sm: "state_after ?evs' s1 ''mid'' = Some ''failed''"
    by (simp add: s1_def run_eval state_after_def)
  from terminal_state_is_final[OF f r e e2 st(1)] st(2)
  have "agent_status s2 ''root'' = Some st" by simp
  then have fin: "state_after ?evs' s1 ''root'' = Some ''completed''"
    unfolding state_after_def e2 using st(2) by simp
  show ?thesis using f sa sm fin unfolding s1_def by blast
qed

section \<open>A failing callback\<close>








section \<open>Read-only queries\<close>

text \<open>
  C10, as stated, fails for the version: an agent without a step context can
  have a version other than 0. The update that follows the completion of
  \<open>root\<close> sets its version to 1; recovery puts back the step contexts of the
  recovery point, where \<open>root\<close> has none, but not the versions.
\<close>

theorem version_survives_recovery_counterexample:
  "step_contexts (context_manager recovered_run) ''root'' = None \<and>
   get_step_context (context_manager recovered_run) ''root'' = Map.empty \<and>
   get_context_version (context_manager recovered_run) ''root'' = 1"
  by (simp add: recovered_run_def recover_from_error_def create_recovery_point_def
      get_context_version_def run_eval)

text \<open>
  C10, amended. The read-only queries have a default for every identifier they
  know nothing of and no branch that raises: \<open>get_step_context\<close> gives the
  empty dictionary for an agent with no step context, \<open>get_context_version\<close>
  gives 0 for a name with no version entry (a name whose context was never
  updated), \<open>get_dependents\<close> gives the empty list for an agent in nobody's
  dependency list, and \<open>check_dependencies_met\<close> holds for an agent with no
  registered dependencies, whatever the statuses are.
\<close>

theorem read_only_queries_total:
  "(step_contexts cm a = None \<longrightarrow> get_step_context cm a = Map.empty) \<and>
   (context_versions cm a = None \<longrightarrow> get_context_version cm a = 0) \<and>
   ((\<forall>(ag, ds) \<in> set g. a \<notin> set ds) \<longrightarrow> get_dependents g a = []) \<and>
   (deps_of g a = [] \<longrightarrow> check_dependencies_met g a sts)"
proof -
  have "(\<forall>(ag, ds) \<in> set g. a \<notin> set ds) \<Longrightarrow> filter (\<lambda>(ag, deps). a \<in> set deps) g = []"
    by (induction g) auto
  then show ?thesis
    by (simp add: get_step_context_def get_context_version_def dict_get_def
        get_dependents_def check_dependencies_met_def)
qed

theorem read_only_queries_total_witness:
  "get_step_context ContextManager_init ''ghost'' = Map.empty \<and>
   get_context_version ContextManager_init ''ghost'' = 0 \<and>
   get_dependents [(''b'', [''a''])] ''ghost'' = [] \<and>
   check_dependencies_met [(''b'', [''a''])] ''ghost'' Map.empty"
  using read_only_queries_total [of ContextManager_init "''ghost''" "[(''b'', [''a''])]" Map.empty]
  by (simp add: ContextManager_init_def deps_of_def)

end
